theory Spec2Isabelle
  imports Main
begin

section \<open>The buffer manager of BadgerDB (src/BufMgr/BufMgr/src/buffer.cpp)\<close>

text \<open>
  The buffer pool is a fixed array of frames with one descriptor per frame, a hash
  table from (file, page number) to frame id, and a clock hand. Every member function
  of \<^verbatim>\<open>BufMgr\<close> is modelled as a function from the state before the call to the
  outcome and the state after it; an exception is a value of \<open>exn\<close>, and the state
  that the exception leaves behind is returned with it, as the C++ object keeps the
  mutations made before the \<^verbatim>\<open>throw\<close>.
\<close>

subsection \<open>Identifiers, pages, descriptors, exceptions\<close>

text \<open>
  \<^verbatim>\<open>FrameId\<close> and \<^verbatim>\<open>PageId\<close> are unsigned 32-bit integers in the source; the
  only arithmetic on them is in the constructor and in \<^verbatim>\<open>advanceClock\<close>, where the
  wrap-around is written out. A \<^verbatim>\<open>File*\<close> is modelled by the identity of the file it
  points to; the null pointer is \<open>None\<close> in a descriptor, and the public operations take
  a non-null file.
\<close>

type_synonym FrameId = nat
type_synonym PageId = nat
type_synonym FileId = nat

text \<open>A page carries its own number: \<^verbatim>\<open>writePage\<close> is given the page only.\<close>

record Page =
  page_number :: PageId
  payload :: "nat list"

text \<open>
  The class \<^verbatim>\<open>BufDesc\<close> is declared in buffer.h. Its fields are the ones buffer.cpp
  reads and writes; \<open>pinCnt\<close> is a signed 32-bit counter, compared with 0 by
  \<^verbatim>\<open>> 0\<close> in \<^verbatim>\<open>allocBuf\<close> and \<^verbatim>\<open>flushFile\<close> and by \<^verbatim>\<open>== 0\<close> in
  \<^verbatim>\<open>unPinPage\<close>. Its values are integers; the increment of \<^verbatim>\<open>readPage\<close> wraps
  around at the width of the counter (\<open>pinCnt_incr\<close> below).
\<close>

record BufDesc =
  file_ptr :: "FileId option"
  pageNo :: PageId
  frameNo :: FrameId
  pinCnt :: int
  dirty :: bool
  valid :: bool
  refbit :: bool

text \<open>
  Modelled from the spec: \<^verbatim>\<open>BufDesc::Set\<close> and \<^verbatim>\<open>BufDesc::Clear\<close> are defined in
  buffer.h. \<^verbatim>\<open>Set(file, pageNumber)\<close> marks valid, stores the identity, resets the pin
  count to 1, dirty to false and the reference bit to true. \<^verbatim>\<open>Clear()\<close> resets all
  fields to the unoccupied state: valid, dirty and reference bit false, pin count 0,
  identity cleared (null file, page number 0). Neither touches the frame number.
\<close>

definition BufDesc_Set :: "BufDesc \<Rightarrow> FileId \<Rightarrow> PageId \<Rightarrow> BufDesc" where
  "BufDesc_Set d f p =
     d\<lparr>file_ptr := Some f, pageNo := p, pinCnt := 1, dirty := False, valid := True, refbit := True\<rparr>"

definition BufDesc_Clear :: "BufDesc \<Rightarrow> BufDesc" where
  "BufDesc_Clear d =
     d\<lparr>pinCnt := 0, file_ptr := None, pageNo := 0, dirty := False, refbit := False, valid := False\<rparr>"

text \<open>
  The exceptions buffer.cpp throws, catches or lets through. \<open>NullFileDereference\<close>
  stands for the undefined behaviour of calling \<^verbatim>\<open>writePage\<close> through a null
  \<^verbatim>\<open>file\<close> pointer. \<^verbatim>\<open>filename()\<close> is the file's identity.
\<close>

datatype exn =
    BufferExceededException
  | PageNotPinnedException FileId PageId FrameId
  | PagePinnedException FileId PageId FrameId
  | BadBufferException FrameId bool bool bool
  | HashNotFoundException FileId PageId
  | InvalidPageException PageId FileId
  | NullFileDereference

subsection \<open>The hash table collaborator\<close>

text \<open>
  Modelled from the spec: the class \<^verbatim>\<open>BufHashTbl\<close> is not part of buffer.cpp. It is an
  associative index from (file, page number) to frame id with \<^verbatim>\<open>insert\<close>,
  \<^verbatim>\<open>lookup\<close> and \<^verbatim>\<open>remove\<close>; \<^verbatim>\<open>lookup\<close> and \<^verbatim>\<open>remove\<close> signal a missing key by
  \<^verbatim>\<open>HashNotFoundException\<close>, which buffer.cpp catches. No failure of \<^verbatim>\<open>insert\<close> is
  described: it stores the frame id under the key.
\<close>

type_synonym BufHashTbl = "(FileId \<times> PageId) \<rightharpoonup> FrameId"

definition ht_lookup :: "BufHashTbl \<Rightarrow> FileId \<Rightarrow> PageId \<Rightarrow> exn + FrameId" where
  "ht_lookup h f p = (case h (f, p) of None \<Rightarrow> Inl (HashNotFoundException f p) | Some fr \<Rightarrow> Inr fr)"

definition ht_insert :: "BufHashTbl \<Rightarrow> FileId \<Rightarrow> PageId \<Rightarrow> FrameId \<Rightarrow> BufHashTbl" where
  "ht_insert h f p fr = h((f, p) \<mapsto> fr)"

definition ht_remove :: "BufHashTbl \<Rightarrow> FileId \<Rightarrow> PageId \<Rightarrow> exn + BufHashTbl" where
  "ht_remove h f p = (case h (f, p) of None \<Rightarrow> Inl (HashNotFoundException f p) | Some fr \<Rightarrow> Inr (h((f, p) := None)))"

subsection \<open>The state\<close>

text \<open>
  The members of \<^verbatim>\<open>BufMgr\<close>, followed by the state of the file collaborator: \<open>files\<close>
  holds the pages that exist in each file, \<open>iolog\<close> records every call made on a file,
  in order.
\<close>

datatype io =
    ReadPage FileId PageId
  | WritePage FileId Page
  | AllocatePage FileId PageId
  | DeletePage FileId PageId

record BufMgr =
  numBufs :: nat
  bufDescTable :: "BufDesc list"
  bufPool :: "Page list"
  hashTable :: BufHashTbl
  clockHand :: FrameId
  files :: "(FileId \<times> PageId) \<rightharpoonup> Page"
  iolog :: "io list"

subsection \<open>The file collaborator\<close>

text \<open>
  Modelled from the spec: the class \<^verbatim>\<open>File\<close> is not part of buffer.cpp. It offers
  \<^verbatim>\<open>readPage(pageNumber)\<close> returning the content, \<^verbatim>\<open>writePage(content)\<close>,
  \<^verbatim>\<open>allocatePage()\<close> returning a fresh page, and \<^verbatim>\<open>deletePage(pageNumber)\<close>, whose
  failures \<^verbatim>\<open>disposePage\<close> propagates. Reading or deleting a page that does not exist
  in the file fails with \<^verbatim>\<open>InvalidPageException\<close>. Which number a new page gets is the
  file's choice: it is the argument \<open>np\<close>.
\<close>

definition file_readPage :: "BufMgr \<Rightarrow> FileId \<Rightarrow> PageId \<Rightarrow> (exn + Page) \<times> BufMgr" where
  "file_readPage s f p =
     (case files s (f, p) of
        None \<Rightarrow> (Inl (InvalidPageException p f), s\<lparr>iolog := iolog s @ [ReadPage f p]\<rparr>)
      | Some pg \<Rightarrow> (Inr pg, s\<lparr>iolog := iolog s @ [ReadPage f p]\<rparr>))"

definition file_writePage :: "BufMgr \<Rightarrow> FileId \<Rightarrow> Page \<Rightarrow> BufMgr" where
  "file_writePage s f pg =
     s\<lparr>files := (files s)((f, page_number pg) \<mapsto> pg), iolog := iolog s @ [WritePage f pg]\<rparr>"

definition file_allocatePage :: "BufMgr \<Rightarrow> FileId \<Rightarrow> PageId \<Rightarrow> Page \<times> BufMgr" where
  "file_allocatePage s f np =
     (let pg = \<lparr>page_number = np, payload = []\<rparr>
      in (pg, s\<lparr>files := (files s)((f, np) \<mapsto> pg), iolog := iolog s @ [AllocatePage f np]\<rparr>))"

definition file_deletePage :: "BufMgr \<Rightarrow> FileId \<Rightarrow> PageId \<Rightarrow> exn option \<times> BufMgr" where
  "file_deletePage s f p =
     (case files s (f, p) of
        None \<Rightarrow> (Some (InvalidPageException p f), s\<lparr>iolog := iolog s @ [DeletePage f p]\<rparr>)
      | Some pg \<Rightarrow> (None, s\<lparr>files := (files s)((f, p) := None), iolog := iolog s @ [DeletePage f p]\<rparr>))"

subsection \<open>Constructor and clock\<close>

text \<open>
  \<^verbatim>\<open>BufMgr::BufMgr(bufs)\<close>: every descriptor gets its frame number and
  \<open>valid = false\<close>; the clock hand is \<open>bufs - 1\<close> in unsigned 32-bit arithmetic.
  Modelled from the spec: the default constructor of \<^verbatim>\<open>BufDesc\<close> is in buffer.h; a new
  descriptor is in the unoccupied state that \<^verbatim>\<open>Clear\<close> leaves. The hash table size is
  not modelled. The second argument is the content of the files when the pool is created.
\<close>

definition BufMgr_init :: "nat \<Rightarrow> ((FileId \<times> PageId) \<rightharpoonup> Page) \<Rightarrow> BufMgr" where
  "BufMgr_init bufs d =
     \<lparr>numBufs = bufs,
      bufDescTable = map (\<lambda>i. \<lparr>file_ptr = None, pageNo = 0, frameNo = i, pinCnt = 0,
                                dirty = False, valid = False, refbit = False\<rparr>) [0..<bufs],
      bufPool = replicate bufs \<lparr>page_number = 0, payload = []\<rparr>,
      hashTable = Map.empty,
      clockHand = (bufs + 2 ^ 32 - 1) mod 2 ^ 32,
      files = d,
      iolog = []\<rparr>"

text \<open>\<^verbatim>\<open>clockHand = (clockHand + 1) % numBufs\<close> on unsigned 32-bit integers.\<close>

definition advanceClock :: "BufMgr \<Rightarrow> BufMgr" where
  "advanceClock s = s\<lparr>clockHand := ((clockHand s + 1) mod 2 ^ 32) mod numBufs s\<rparr>"

subsection \<open>allocBuf\<close>

text \<open>
  Lines 110 to 117: inside the \<^verbatim>\<open>try\<close> block the hash table entry of the victim is
  removed and its descriptor cleared, only when the descriptor's file pointer is not
  null; a \<^verbatim>\<open>HashNotFoundException\<close> from \<^verbatim>\<open>remove\<close> is caught and ignored, so that
  \<^verbatim>\<open>Clear\<close> is skipped.
\<close>

definition removeVictim :: "BufMgr \<Rightarrow> FrameId \<Rightarrow> BufMgr" where
  "removeVictim s h =
     (let d = bufDescTable s ! h in
      case file_ptr d of
        None \<Rightarrow> s
      | Some f \<Rightarrow>
          (case ht_remove (hashTable s) f (pageNo d) of
             Inl e \<Rightarrow> s
           | Inr ht \<Rightarrow> s\<lparr>hashTable := ht, bufDescTable := (bufDescTable s)[h := BufDesc_Clear d]\<rparr>))"

text \<open>
  Lines 106 to 117, for the frame \<open>h\<close> under the clock hand once it is found valid,
  unreferenced and unpinned: the write-back of a dirty page through the descriptor's file
  pointer, then the \<^verbatim>\<open>try\<close> block.
\<close>

definition evictFrame :: "BufMgr \<Rightarrow> FrameId \<Rightarrow> exn + BufMgr" where
  "evictFrame s h =
     (let d = bufDescTable s ! h in
      if dirty d then
        (case file_ptr d of
           None \<Rightarrow> Inl NullFileDereference
         | Some f \<Rightarrow> Inr (removeVictim (file_writePage s f (bufPool s ! h)) h))
      else Inr (removeVictim s h))"

text \<open>
  The \<^verbatim>\<open>for\<close> loop of lines 88 to 120, by the number of iterations that remain (the
  loop runs \<open>numBufs\<close> times, for \<open>numBufs < 2 ^ 31\<close>, unless it returns). The result is
  \<open>Inr (Some h)\<close> when the loop returns frame \<open>h\<close>, \<open>Inr None\<close> when it ends without
  choosing a frame.
\<close>

fun sweep :: "nat \<Rightarrow> BufMgr \<Rightarrow> (exn + FrameId option) \<times> BufMgr" where
  "sweep 0 s = (Inr None, s)"
| "sweep (Suc n) s =
     (let s1 = advanceClock s; h = clockHand s1; d = bufDescTable s1 ! h in
      if \<not> valid d then (Inr (Some h), s1)
      else if refbit d then
        sweep n (s1\<lparr>bufDescTable := (bufDescTable s1)[h := d\<lparr>refbit := False\<rparr>]\<rparr>)
      else if pinCnt d > 0 then sweep n s1
      else (case evictFrame s1 h of
              Inl e \<Rightarrow> (Inl e, s1)
            | Inr s2 \<Rightarrow> (Inr (Some h), s2)))"

text \<open>Lines 123 to 129: is there a frame \<open>i < k\<close> with \<open>pinCnt = 0\<close>?\<close>

fun somePinCntZero :: "BufDesc list \<Rightarrow> nat \<Rightarrow> bool" where
  "somePinCntZero tbl 0 = False"
| "somePinCntZero tbl (Suc k) = (somePinCntZero tbl k \<or> pinCnt (tbl ! k) = 0)"

text \<open>
  The \<^verbatim>\<open>while (true)\<close> loop. It has no bound in the source, so the model is a partial
  function: \<open>None\<close> is the loop that never ends.
\<close>

partial_function (option) allocBuf :: "BufMgr \<Rightarrow> ((exn + FrameId) \<times> BufMgr) option" where
  "allocBuf s =
     (case sweep (numBufs s) s of
        (Inl e, s') \<Rightarrow> Some (Inl e, s')
      | (Inr (Some fr), s') \<Rightarrow> Some (Inr fr, s')
      | (Inr None, s') \<Rightarrow>
          if somePinCntZero (bufDescTable s') (numBufs s') then allocBuf s'
          else Some (Inl BufferExceededException, s'))"

text \<open>The same loop, given up (\<open>None\<close>) after \<open>k\<close> sweeps.\<close>

fun allocBuf_sweeps :: "nat \<Rightarrow> BufMgr \<Rightarrow> ((exn + FrameId) \<times> BufMgr) option" where
  "allocBuf_sweeps 0 s = None"
| "allocBuf_sweeps (Suc k) s =
     (case sweep (numBufs s) s of
        (Inl e, s') \<Rightarrow> Some (Inl e, s')
      | (Inr (Some fr), s') \<Rightarrow> Some (Inr fr, s')
      | (Inr None, s') \<Rightarrow>
          if somePinCntZero (bufDescTable s') (numBufs s') then allocBuf_sweeps k s'
          else Some (Inl BufferExceededException, s'))"

subsection \<open>readPage, unPinPage, flushFile, allocPage, disposePage\<close>

text \<open>
  \<^verbatim>\<open>pinCnt++\<close> on a signed 32-bit counter: one more, and from \<open>2 ^ 31 - 1\<close> to
  \<open>- (2 ^ 31)\<close>, as the two's complement machine does (the overflow is undefined
  behaviour in C++).
\<close>

definition pinCnt_incr :: "int \<Rightarrow> int" where
  "pinCnt_incr n = (n + 1 + 2 ^ 31) mod 2 ^ 32 - 2 ^ 31"

text \<open>The handle \<^verbatim>\<open>&bufPool[id]\<close> that \<^verbatim>\<open>readPage\<close> returns is the frame id.\<close>

definition readPage :: "BufMgr \<Rightarrow> FileId \<Rightarrow> PageId \<Rightarrow> ((exn + FrameId) \<times> BufMgr) option" where
  "readPage s f p =
     (case ht_lookup (hashTable s) f p of
        Inr fid \<Rightarrow>
          (let d = bufDescTable s ! fid;
               s1 = s\<lparr>bufDescTable := (bufDescTable s)[fid := d\<lparr>pinCnt := pinCnt_incr (pinCnt d)\<rparr>]\<rparr>
           in Some (Inr fid,
                s1\<lparr>bufDescTable := (bufDescTable s1)[fid := (bufDescTable s1 ! fid)\<lparr>refbit := True\<rparr>]\<rparr>))
      | Inl e \<Rightarrow>
          (case file_readPage s f p of
             (Inl e', s1) \<Rightarrow> Some (Inl e', s1)
           | (Inr pageTemp, s1) \<Rightarrow>
               (case allocBuf s1 of
                  None \<Rightarrow> None
                | Some (Inl e', s2) \<Rightarrow> Some (Inl e', s2)
                | Some (Inr fid, s2) \<Rightarrow>
                    (let s3 = s2\<lparr>bufPool := (bufPool s2)[fid := pageTemp]\<rparr>;
                         s4 = s3\<lparr>hashTable := ht_insert (hashTable s3) f p fid\<rparr>;
                         s5 = s4\<lparr>bufDescTable :=
                                 (bufDescTable s4)[fid := BufDesc_Set (bufDescTable s4 ! fid) f p]\<rparr>
                     in Some (Inr fid,
                          s5\<lparr>bufDescTable :=
                               (bufDescTable s5)[fid := (bufDescTable s5 ! fid)\<lparr>refbit := True\<rparr>]\<rparr>)))))"

definition unPinPage :: "BufMgr \<Rightarrow> FileId \<Rightarrow> PageId \<Rightarrow> bool \<Rightarrow> exn option \<times> BufMgr" where
  "unPinPage s f p dty =
     (case ht_lookup (hashTable s) f p of
        Inl e \<Rightarrow> (None, s)
      | Inr frameId \<Rightarrow>
          (let d = bufDescTable s ! frameId in
           if pinCnt d = 0 then (Some (PageNotPinnedException f p frameId), s)
           else
             (let s1 = s\<lparr>bufDescTable := (bufDescTable s)[frameId := d\<lparr>pinCnt := pinCnt d - 1\<rparr>]\<rparr>
              in if dty
                 then (None, s1\<lparr>bufDescTable :=
                          (bufDescTable s1)[frameId := (bufDescTable s1 ! frameId)\<lparr>dirty := True\<rparr>]\<rparr>)
                 else (None, s1))))"

text \<open>
  The loop of \<^verbatim>\<open>flushFile\<close> over the frame ids that remain. \<^verbatim>\<open>remove\<close> is not inside
  a \<^verbatim>\<open>try\<close> block here: its exception leaves \<^verbatim>\<open>flushFile\<close>.
\<close>

fun flushFrames :: "FileId \<Rightarrow> FrameId list \<Rightarrow> BufMgr \<Rightarrow> exn option \<times> BufMgr" where
  "flushFrames f [] s = (None, s)"
| "flushFrames f (k # ks) s =
     (let d = bufDescTable s ! k in
      if file_ptr d = Some f then
        if pinCnt d > 0 then (Some (PagePinnedException f (pageNo d) k), s)
        else if \<not> valid d then (Some (BadBufferException k (dirty d) (valid d) (refbit d)), s)
        else
          (let s1 = (if dirty d
                     then (file_writePage s f (bufPool s ! k))
                            \<lparr>bufDescTable := (bufDescTable s)[k := d\<lparr>dirty := False\<rparr>]\<rparr>
                     else s)
           in case ht_remove (hashTable s1) f (pageNo (bufDescTable s1 ! k)) of
                Inl e \<Rightarrow> (Some e, s1)
              | Inr ht \<Rightarrow>
                  flushFrames f ks
                    (s1\<lparr>hashTable := ht,
                        bufDescTable := (bufDescTable s1)[k := BufDesc_Clear (bufDescTable s1 ! k)]\<rparr>))
      else flushFrames f ks s)"

definition flushFile :: "BufMgr \<Rightarrow> FileId \<Rightarrow> exn option \<times> BufMgr" where
  "flushFile s f = flushFrames f [0..<numBufs s] s"

text \<open>
  \<^verbatim>\<open>allocPage\<close>; \<open>np\<close> is the number of the page that \<^verbatim>\<open>file->allocatePage()\<close>
  returns. The result is the new page number and the frame of the handle.
\<close>

definition allocPage :: "BufMgr \<Rightarrow> FileId \<Rightarrow> PageId \<Rightarrow> ((exn + PageId \<times> FrameId) \<times> BufMgr) option" where
  "allocPage s f np =
     (case file_allocatePage s f np of
        (newPage, s1) \<Rightarrow>
          (let newPageId = page_number newPage in
           case allocBuf s1 of
             None \<Rightarrow> None
           | Some (Inl e, s2) \<Rightarrow> Some (Inl e, s2)
           | Some (Inr frameId, s2) \<Rightarrow>
               (case file_readPage s2 f newPageId of
                  (Inl e, s3) \<Rightarrow> Some (Inl e, s3)
                | (Inr pg, s3) \<Rightarrow>
                    (let s4 = s3\<lparr>bufPool := (bufPool s3)[frameId := pg]\<rparr>;
                         s5 = s4\<lparr>hashTable := ht_insert (hashTable s4) f newPageId frameId\<rparr>
                     in Some (Inr (newPageId, frameId),
                          s5\<lparr>bufDescTable :=
                               (bufDescTable s5)[frameId := BufDesc_Set (bufDescTable s5 ! frameId) f newPageId]\<rparr>)))))"

text \<open>
  \<^verbatim>\<open>disposePage\<close>: the \<^verbatim>\<open>try\<close> block ends at the first \<^verbatim>\<open>HashNotFoundException\<close>;
  \<^verbatim>\<open>deletePage\<close> is called after it in every case.
\<close>

definition disposePage :: "BufMgr \<Rightarrow> FileId \<Rightarrow> PageId \<Rightarrow> exn option \<times> BufMgr" where
  "disposePage s f p =
     (let s2 =
        (case ht_lookup (hashTable s) f p of
           Inl e \<Rightarrow> s
         | Inr frameId \<Rightarrow>
             (let s1 = s\<lparr>bufDescTable :=
                          (bufDescTable s)[frameId := BufDesc_Clear (bufDescTable s ! frameId)]\<rparr>
              in case ht_remove (hashTable s1) f p of
                   Inl e \<Rightarrow> s1
                 | Inr ht \<Rightarrow> s1\<lparr>hashTable := ht\<rparr>))
      in file_deletePage s2 f p)"

section \<open>Specification\<close>

subsection \<open>Well-formed pools and the agreement of index and descriptors\<close>

text \<open>
  The constructor allocates both arrays with \<open>numBufs\<close> entries and nothing resizes them.
  The loop counter of \<^verbatim>\<open>allocBuf\<close> is a signed \<^verbatim>\<open>int\<close> compared with
  \<^verbatim>\<open>(signed)numBufs\<close>, so the pool has fewer than \<open>2 ^ 31\<close> frames.
\<close>

definition wf_pool :: "BufMgr \<Rightarrow> bool" where
  "wf_pool s \<longleftrightarrow>
     numBufs s < 2 ^ 31 \<and> length (bufDescTable s) = numBufs s \<and> length (bufPool s) = numBufs s"

text \<open>
  The index agrees with the descriptors: every entry of the hash table names a valid
  frame that holds this very page, every valid frame is registered under its own
  (file, page number), and an invalid frame is in the state \<^verbatim>\<open>Clear\<close> leaves.
\<close>

definition index_agrees :: "BufMgr \<Rightarrow> bool" where
  "index_agrees s \<longleftrightarrow>
     wf_pool s \<and>
     (\<forall>f p fr. hashTable s (f, p) = Some fr \<longrightarrow>
        fr < numBufs s \<and> valid (bufDescTable s ! fr) \<and>
        file_ptr (bufDescTable s ! fr) = Some f \<and> pageNo (bufDescTable s ! fr) = p) \<and>
     (\<forall>fr<numBufs s. valid (bufDescTable s ! fr) \<longrightarrow>
        (\<exists>f. file_ptr (bufDescTable s ! fr) = Some f \<and>
             hashTable s (f, pageNo (bufDescTable s ! fr)) = Some fr)) \<and>
     (\<forall>fr<numBufs s. \<not> valid (bufDescTable s ! fr) \<longrightarrow>
        BufDesc_Clear (bufDescTable s ! fr) = bufDescTable s ! fr)"

text \<open>Every page in the pool exists in its file.\<close>

definition resident_on_disk :: "BufMgr \<Rightarrow> bool" where
  "resident_on_disk s \<longleftrightarrow> (\<forall>k. hashTable s k \<noteq> None \<longrightarrow> files s k \<noteq> None)"

text \<open>
  The states of a pool: a freshly constructed pool, and every state a public operation
  leaves, whether the operation returns or throws. \<^verbatim>\<open>allocatePage\<close> hands out a
  page number that is not in use in the file.
\<close>

inductive reachable :: "BufMgr \<Rightarrow> bool" where
  reach_init: "bufs < 2 ^ 31 \<Longrightarrow> reachable (BufMgr_init bufs d)"
| reach_readPage: "reachable s \<Longrightarrow> readPage s f p = Some (r, s') \<Longrightarrow> reachable s'"
| reach_unPinPage: "reachable s \<Longrightarrow> unPinPage s f p b = (x, s') \<Longrightarrow> reachable s'"
| reach_allocPage:
    "reachable s \<Longrightarrow> files s (f, np) = None \<Longrightarrow> allocPage s f np = Some (y, s') \<Longrightarrow> reachable s'"
| reach_disposePage: "reachable s \<Longrightarrow> disposePage s f p = (x, s') \<Longrightarrow> reachable s'"
| reach_flushFile: "reachable s \<Longrightarrow> flushFile s f = (x, s') \<Longrightarrow> reachable s'"

subsection \<open>What a sweep may change\<close>

text \<open>
  \<open>clock_rel s s'\<close>: \<open>s'\<close> is \<open>s\<close> with the clock hand moved and some reference bits
  cleared, nothing else.
\<close>

definition clock_rel :: "BufMgr \<Rightarrow> BufMgr \<Rightarrow> bool" where
  "clock_rel s s' \<longleftrightarrow>
     numBufs s' = numBufs s \<and> bufPool s' = bufPool s \<and> hashTable s' = hashTable s \<and>
     files s' = files s \<and> iolog s' = iolog s \<and>
     length (bufDescTable s') = length (bufDescTable s) \<and>
     (\<forall>i. (bufDescTable s' ! i)\<lparr>refbit := False\<rparr> = (bufDescTable s ! i)\<lparr>refbit := False\<rparr>) \<and>
     (\<forall>i. refbit (bufDescTable s' ! i) \<longrightarrow> refbit (bufDescTable s ! i))"

text \<open>
  The state after the eviction of frame \<open>h\<close>, whose descriptor names file \<open>f\<close>: the page
  written to \<open>f\<close> if the descriptor is dirty, the entry of the page removed from the hash
  table, the descriptor cleared.
\<close>

definition evicted :: "BufMgr \<Rightarrow> FrameId \<Rightarrow> FileId \<Rightarrow> BufMgr" where
  "evicted s h f =
     (let d = bufDescTable s ! h in
      s\<lparr>files := (if dirty d then (files s)((f, page_number (bufPool s ! h)) \<mapsto> bufPool s ! h) else files s),
        iolog := (if dirty d then iolog s @ [WritePage f (bufPool s ! h)] else iolog s),
        hashTable := (hashTable s)((f, pageNo d) := None),
        bufDescTable := (bufDescTable s)[h := BufDesc_Clear d]\<rparr>)"

text \<open>
  The outcome \<open>r\<close> and final state \<open>s'\<close> of \<^verbatim>\<open>allocBuf\<close> from \<open>s\<close>, by the state
  \<open>s1\<close> in which the last frame was examined.
\<close>

definition alloc_post :: "BufMgr \<Rightarrow> exn + FrameId \<Rightarrow> BufMgr \<Rightarrow> bool" where
  "alloc_post s r s' \<longleftrightarrow>
     (\<exists>s1. clock_rel s s1 \<and>
        (case r of
           Inr v \<Rightarrow>
             v < numBufs s \<and> clockHand s1 = v \<and>
             (if valid (bufDescTable s1 ! v)
              then \<not> refbit (bufDescTable s1 ! v) \<and> \<not> 0 < pinCnt (bufDescTable s1 ! v) \<and>
                   evictFrame s1 v = Inr s'
              else s' = s1)
         | Inl e \<Rightarrow>
             s' = s1 \<and>
             (if e = BufferExceededException
              then \<not> somePinCntZero (bufDescTable s1) (numBufs s1)
              else clockHand s1 < numBufs s \<and> valid (bufDescTable s1 ! clockHand s1) \<and>
                   \<not> refbit (bufDescTable s1 ! clockHand s1) \<and>
                   \<not> 0 < pinCnt (bufDescTable s1 ! clockHand s1) \<and>
                   evictFrame s1 (clockHand s1) = Inl e)))"

text \<open>
  For \<^verbatim>\<open>flushFile\<close>: frame \<open>k\<close> belongs to file \<open>f\<close>; frame \<open>k\<close> makes the flush of
  \<open>f\<close> fail, being pinned or not valid.
\<close>

definition owned :: "BufMgr \<Rightarrow> FileId \<Rightarrow> FrameId \<Rightarrow> bool" where
  "owned s f k \<longleftrightarrow> file_ptr (bufDescTable s ! k) = Some f"

definition blocks_flush :: "BufMgr \<Rightarrow> FileId \<Rightarrow> FrameId \<Rightarrow> bool" where
  "blocks_flush s f k \<longleftrightarrow>
     owned s f k \<and> (0 < pinCnt (bufDescTable s ! k) \<or> \<not> valid (bufDescTable s ! k))"

subsection \<open>Concrete pools\<close>

text \<open>
  A pool of two frames over file 0, whose pages 1, 2 and 3 exist. Frame 0 holds page 1,
  unpinned and dirty; frame 1 holds page 2, pinned once and clean. In \<open>pool_ref\<close> both
  reference bits are set, in \<open>pool_unref\<close> both are clear. The clock hand is on frame 1.
\<close>

definition page_of :: "PageId \<Rightarrow> nat list \<Rightarrow> Page" where
  "page_of n xs = \<lparr>page_number = n, payload = xs\<rparr>"

definition disk3 :: "(FileId \<times> PageId) \<rightharpoonup> Page" where
  "disk3 = [(0, 1) \<mapsto> page_of 1 [10], (0, 2) \<mapsto> page_of 2 [20], (0, 3) \<mapsto> page_of 3 [30]]"

definition pool_with :: "bool \<Rightarrow> BufMgr" where
  "pool_with r =
     \<lparr>numBufs = 2,
      bufDescTable =
        [\<lparr>file_ptr = Some 0, pageNo = 1, frameNo = 0, pinCnt = 0, dirty = True, valid = True, refbit = r\<rparr>,
         \<lparr>file_ptr = Some 0, pageNo = 2, frameNo = 1, pinCnt = 1, dirty = False, valid = True, refbit = r\<rparr>],
      bufPool = [page_of 1 [11], page_of 2 [20]],
      hashTable = [(0, 1) \<mapsto> 0, (0, 2) \<mapsto> 1],
      clockHand = 1,
      files = disk3,
      iolog = []\<rparr>"

definition pool_ref :: BufMgr where
  "pool_ref = pool_with True"

definition pool_unref :: BufMgr where
  "pool_unref = pool_with False"

text \<open>
  \<open>pool_unref\<close> with the entry of page 1 missing from the hash table: frame 0 is valid
  but not registered.
\<close>

definition pool_stale :: BufMgr where
  "pool_stale = pool_unref\<lparr>hashTable := [(0, 2) \<mapsto> 1]\<rparr>"

text \<open>
  \<open>pool_ref\<close> with frame 1 unpinned and marked not valid while it still names file 0,
  and not registered.
\<close>

definition pool_bad :: BufMgr where
  "pool_bad =
     pool_ref\<lparr>bufDescTable :=
                 [bufDescTable pool_ref ! 0, (bufDescTable pool_ref ! 1)\<lparr>pinCnt := 0, valid := False\<rparr>],
               hashTable := [(0, 1) \<mapsto> 0]\<rparr>"

text \<open>
  A pool of one frame holding page 1 of file 0, with the given pin count, reference bit
  and log of file operations.
\<close>

definition pool_one :: "int \<Rightarrow> bool \<Rightarrow> io list \<Rightarrow> BufMgr" where
  "pool_one n r l =
     \<lparr>numBufs = 1,
      bufDescTable =
        [\<lparr>file_ptr = Some 0, pageNo = 1, frameNo = 0, pinCnt = n, dirty = False, valid = True, refbit = r\<rparr>],
      bufPool = [page_of 1 [10]],
      hashTable = [(0, 1) \<mapsto> 0],
      clockHand = 0,
      files = disk3,
      iolog = l\<rparr>"

section \<open>Proofs\<close>

subsection \<open>The sweep\<close>

lemma clock_rel_refl: "clock_rel s s"
  by (simp add: clock_rel_def)

lemma clock_rel_trans: "clock_rel s s1 \<Longrightarrow> clock_rel s1 s2 \<Longrightarrow> clock_rel s s2"
  by (simp add: clock_rel_def)

lemma clock_rel_advanceClock: "clock_rel s (advanceClock s)"
  by (simp add: clock_rel_def advanceClock_def)

lemma clock_rel_clear_refbit:
  "clock_rel s (s\<lparr>bufDescTable := (bufDescTable s)[h := (bufDescTable s ! h)\<lparr>refbit := False\<rparr>]\<rparr>)"
proof -
  have "(xs[h := (xs ! h)\<lparr>refbit := False\<rparr>] ! i)\<lparr>refbit := False\<rparr> = (xs ! i)\<lparr>refbit := False\<rparr>"
    for xs :: "BufDesc list" and i
    by (cases "h < length xs"; cases "i = h"; simp add: list_update_beyond)
  moreover have "refbit (xs[h := (xs ! h)\<lparr>refbit := False\<rparr>] ! i) \<longrightarrow> refbit (xs ! i)"
    for xs :: "BufDesc list" and i
    by (cases "h < length xs"; cases "i = h"; simp add: list_update_beyond)
  ultimately show ?thesis by (simp add: clock_rel_def)
qed

lemma clock_rel_fields:
  assumes "clock_rel s s'"
  shows "pinCnt (bufDescTable s' ! i) = pinCnt (bufDescTable s ! i)"
    and "valid (bufDescTable s' ! i) = valid (bufDescTable s ! i)"
    and "dirty (bufDescTable s' ! i) = dirty (bufDescTable s ! i)"
    and "file_ptr (bufDescTable s' ! i) = file_ptr (bufDescTable s ! i)"
    and "pageNo (bufDescTable s' ! i) = pageNo (bufDescTable s ! i)"
    and "frameNo (bufDescTable s' ! i) = frameNo (bufDescTable s ! i)"
proof -
  from assms have e: "(bufDescTable s' ! i)\<lparr>refbit := False\<rparr> = (bufDescTable s ! i)\<lparr>refbit := False\<rparr>"
    by (simp add: clock_rel_def)
  from arg_cong [OF e, of pinCnt] show "pinCnt (bufDescTable s' ! i) = pinCnt (bufDescTable s ! i)" by simp
  from arg_cong [OF e, of valid] show "valid (bufDescTable s' ! i) = valid (bufDescTable s ! i)" by simp
  from arg_cong [OF e, of dirty] show "dirty (bufDescTable s' ! i) = dirty (bufDescTable s ! i)" by simp
  from arg_cong [OF e, of file_ptr] show "file_ptr (bufDescTable s' ! i) = file_ptr (bufDescTable s ! i)" by simp
  from arg_cong [OF e, of pageNo] show "pageNo (bufDescTable s' ! i) = pageNo (bufDescTable s ! i)" by simp
  from arg_cong [OF e, of frameNo] show "frameNo (bufDescTable s' ! i) = frameNo (bufDescTable s ! i)" by simp
qed

text \<open>What one run of the for loop does.\<close>

lemma sweep_None:
  "sweep n s = (Inr None, s') \<Longrightarrow> clock_rel s s'"
proof (induction n arbitrary: s)
  case 0
  then show ?case by (simp add: clock_rel_refl)
next
  case (Suc n)
  let ?s1 = "advanceClock s"
  let ?h = "clockHand ?s1"
  let ?d = "bufDescTable ?s1 ! ?h"
  let ?s2 = "?s1\<lparr>bufDescTable := (bufDescTable ?s1)[?h := ?d\<lparr>refbit := False\<rparr>]\<rparr>"
  from Suc.prems have v: "valid ?d"
    by (auto simp: Let_def split: if_splits)
  show ?case
  proof (cases "refbit ?d")
    case True
    with Suc.prems v have "sweep n ?s2 = (Inr None, s')" by (simp add: Let_def)
    then have "clock_rel ?s2 s'" by (rule Suc.IH)
    with clock_rel_clear_refbit [of ?s1 ?h] clock_rel_advanceClock [of s]
    show ?thesis by (blast intro: clock_rel_trans)
  next
    case False
    with Suc.prems v have "sweep n ?s1 = (Inr None, s')"
      by (auto simp: Let_def split: if_splits sum.splits)
    then have "clock_rel ?s1 s'" by (rule Suc.IH)
    with clock_rel_advanceClock [of s]
    show ?thesis by (blast intro: clock_rel_trans)
  qed
qed

lemma sweep_Some:
  "sweep n s = (Inr (Some v), s') \<Longrightarrow>
   \<exists>s1. clock_rel s s1 \<and> clockHand s1 = v \<and>
     (if valid (bufDescTable s1 ! v)
      then \<not> refbit (bufDescTable s1 ! v) \<and> \<not> 0 < pinCnt (bufDescTable s1 ! v) \<and> evictFrame s1 v = Inr s'
      else s' = s1)"
proof (induction n arbitrary: s)
  case 0
  then show ?case by simp
next
  case (Suc n)
  let ?s1 = "advanceClock s"
  let ?h = "clockHand ?s1"
  let ?d = "bufDescTable ?s1 ! ?h"
  let ?s2 = "?s1\<lparr>bufDescTable := (bufDescTable ?s1)[?h := ?d\<lparr>refbit := False\<rparr>]\<rparr>"
  show ?case
  proof (cases "valid ?d")
    case False
    with Suc.prems have "s' = ?s1" "v = ?h" by (auto simp: Let_def)
    with False clock_rel_advanceClock [of s] show ?thesis by auto
  next
    case v: True
    show ?thesis
    proof (cases "refbit ?d")
      case True
      with Suc.prems v have "sweep n ?s2 = (Inr (Some v), s')" by (simp add: Let_def)
      from Suc.IH [OF this] obtain s3 where s3: "clock_rel ?s2 s3" "clockHand s3 = v"
        "if valid (bufDescTable s3 ! v)
         then \<not> refbit (bufDescTable s3 ! v) \<and> \<not> 0 < pinCnt (bufDescTable s3 ! v) \<and> evictFrame s3 v = Inr s'
         else s' = s3" by blast
      from s3(1) clock_rel_clear_refbit [of ?s1 ?h] clock_rel_advanceClock [of s]
      have "clock_rel s s3" by (blast intro: clock_rel_trans)
      with s3 show ?thesis by blast
    next
      case r: False
      show ?thesis
      proof (cases "0 < pinCnt ?d")
        case True
        with Suc.prems v r have "sweep n ?s1 = (Inr (Some v), s')" by (simp add: Let_def)
        from Suc.IH [OF this] obtain s3 where s3: "clock_rel ?s1 s3" "clockHand s3 = v"
          "if valid (bufDescTable s3 ! v)
           then \<not> refbit (bufDescTable s3 ! v) \<and> \<not> 0 < pinCnt (bufDescTable s3 ! v) \<and> evictFrame s3 v = Inr s'
           else s' = s3" by blast
        from s3(1) clock_rel_advanceClock [of s]
        have "clock_rel s s3" by (blast intro: clock_rel_trans)
        with s3 show ?thesis by blast
      next
        case False
        with Suc.prems v r have "v = ?h" "evictFrame ?s1 ?h = Inr s'"
          by (auto simp: Let_def split: sum.splits)
        with v r False clock_rel_advanceClock [of s] show ?thesis by auto
      qed
    qed
  qed
qed

lemma sweep_Inl:
  "sweep n s = (Inl e, s') \<Longrightarrow>
   clock_rel s s' \<and> valid (bufDescTable s' ! clockHand s') \<and> \<not> refbit (bufDescTable s' ! clockHand s') \<and>
     \<not> 0 < pinCnt (bufDescTable s' ! clockHand s') \<and> evictFrame s' (clockHand s') = Inl e"
proof (induction n arbitrary: s)
  case 0
  then show ?case by simp
next
  case (Suc n)
  let ?s1 = "advanceClock s"
  let ?h = "clockHand ?s1"
  let ?d = "bufDescTable ?s1 ! ?h"
  let ?s2 = "?s1\<lparr>bufDescTable := (bufDescTable ?s1)[?h := ?d\<lparr>refbit := False\<rparr>]\<rparr>"
  from Suc.prems have v: "valid ?d"
    by (auto simp: Let_def split: if_splits)
  show ?case
  proof (cases "refbit ?d")
    case True
    with Suc.prems v have "sweep n ?s2 = (Inl e, s')" by (simp add: Let_def)
    from Suc.IH [OF this] clock_rel_clear_refbit [of ?s1 ?h] clock_rel_advanceClock [of s]
    show ?thesis by (blast intro: clock_rel_trans)
  next
    case r: False
    show ?thesis
    proof (cases "0 < pinCnt ?d")
      case True
      with Suc.prems v r have "sweep n ?s1 = (Inl e, s')" by (simp add: Let_def)
      from Suc.IH [OF this] clock_rel_advanceClock [of s]
      show ?thesis by (blast intro: clock_rel_trans)
    next
      case False
      with Suc.prems v r have "s' = ?s1" "evictFrame ?s1 ?h = Inl e"
        by (auto simp: Let_def split: sum.splits)
      with v r False clock_rel_advanceClock [of s] show ?thesis by auto
    qed
  qed
qed

subsection \<open>Two sweeps are enough\<close>

lemma somePinCntZero_iff: "somePinCntZero tbl k \<longleftrightarrow> (\<exists>i<k. pinCnt (tbl ! i) = 0)"
  by (induction k) (auto simp: less_Suc_eq)

lemma wf_pool_clock_rel: "clock_rel s s' \<Longrightarrow> wf_pool s \<Longrightarrow> wf_pool s'"
  by (simp add: clock_rel_def wf_pool_def)

lemma clockHand_advanceClock_less: "0 < numBufs s \<Longrightarrow> clockHand (advanceClock s) < numBufs s"
  by (simp add: advanceClock_def)

lemma clockHand_advanceClock_next:
  assumes "clockHand s < numBufs s" "numBufs s < 2 ^ 31"
  shows "clockHand (advanceClock s) = (clockHand s + 1) mod numBufs s"
proof -
  from assms have "clockHand s + 1 < (2::nat) ^ 32" by simp
  then show ?thesis by (simp add: advanceClock_def)
qed

lemma sweep_None_visited:
  assumes "sweep n s = (Inr None, s')" and "0 < numBufs s" and "wf_pool s"
  shows "\<forall>j<n. valid (bufDescTable s' ! ((clockHand (advanceClock s) + j) mod numBufs s)) \<and>
               \<not> refbit (bufDescTable s' ! ((clockHand (advanceClock s) + j) mod numBufs s)) \<and>
               (refbit (bufDescTable s ! ((clockHand (advanceClock s) + j) mod numBufs s)) \<or>
                0 < pinCnt (bufDescTable s ! ((clockHand (advanceClock s) + j) mod numBufs s)))"
  using assms
proof (induction n arbitrary: s)
  case 0
  then show ?case by simp
next
  case (Suc n)
  let ?N = "numBufs s"
  let ?s1 = "advanceClock s"
  let ?h = "clockHand ?s1"
  let ?d = "bufDescTable ?s1 ! ?h"
  let ?s2 = "?s1\<lparr>bufDescTable := (bufDescTable ?s1)[?h := ?d\<lparr>refbit := False\<rparr>]\<rparr>"
  let ?t = "if refbit ?d then ?s2 else ?s1"
  from Suc.prems have hN: "?h < ?N" by (simp add: clockHand_advanceClock_less)
  from Suc.prems have len: "length (bufDescTable s) = ?N" "?N < 2 ^ 31" by (simp_all add: wf_pool_def)
  from Suc.prems(1) have v: "valid ?d"
    by (auto simp: Let_def split: if_splits)
  from Suc.prems(1) v have rp: "refbit ?d \<or> 0 < pinCnt ?d"
    by (auto simp: Let_def split: if_splits sum.splits)
  from Suc.prems(1) v rp have rec: "sweep n ?t = (Inr None, s')"
    by (auto simp: Let_def split: if_splits)
  have rel1: "clock_rel s ?s1" by (rule clock_rel_advanceClock)
  have rel2: "clock_rel ?s1 ?t" by (simp add: clock_rel_clear_refbit clock_rel_refl)
  have rel3: "clock_rel ?t s'" using rec by (rule sweep_None)
  have st: "clock_rel s ?t" using rel1 rel2 by (rule clock_rel_trans)
  have Nt: "numBufs ?t = ?N" "clockHand ?t = ?h" by (simp_all add: advanceClock_def)
  have wft: "wf_pool ?t" using st Suc.prems(3) by (rule wf_pool_clock_rel)
  have nref: "\<not> refbit (bufDescTable ?t ! ?h)"
    using hN len by (simp add: advanceClock_def)
  have vt: "valid (bufDescTable ?t ! ?h)"
    using v clock_rel_fields(2) [OF rel2, of ?h] by simp
  have orig: "refbit (bufDescTable s ! ?h) \<or> 0 < pinCnt (bufDescTable s ! ?h)"
    using rp by (simp add: advanceClock_def)
  have zero: "valid (bufDescTable s' ! ?h) \<and> \<not> refbit (bufDescTable s' ! ?h)"
    using clock_rel_fields(2) [OF rel3, of ?h] vt nref rel3 by (auto simp: clock_rel_def)
  have nxt: "clockHand (advanceClock ?t) = (?h + 1) mod ?N"
    using clockHand_advanceClock_next [of ?t] hN len Nt by simp
  from Suc.IH [OF rec] Suc.prems(2) wft Nt nxt
  have IH: "\<forall>j<n. valid (bufDescTable s' ! (((?h + 1) mod ?N + j) mod ?N)) \<and>
               \<not> refbit (bufDescTable s' ! (((?h + 1) mod ?N + j) mod ?N)) \<and>
               (refbit (bufDescTable ?t ! (((?h + 1) mod ?N + j) mod ?N)) \<or>
                0 < pinCnt (bufDescTable ?t ! (((?h + 1) mod ?N + j) mod ?N)))"
    by simp
  show ?case
  proof (intro allI impI)
    fix j assume j: "j < Suc n"
    show "valid (bufDescTable s' ! ((?h + j) mod ?N)) \<and>
          \<not> refbit (bufDescTable s' ! ((?h + j) mod ?N)) \<and>
          (refbit (bufDescTable s ! ((?h + j) mod ?N)) \<or> 0 < pinCnt (bufDescTable s ! ((?h + j) mod ?N)))"
    proof (cases j)
      case 0
      with hN zero orig show ?thesis by simp
    next
      case (Suc k)
      have eq: "((?h + 1) mod ?N + k) mod ?N = (?h + j) mod ?N"
        using Suc by (simp add: mod_add_left_eq)
      from IH Suc j have
        "valid (bufDescTable s' ! (((?h + 1) mod ?N + k) mod ?N)) \<and>
         \<not> refbit (bufDescTable s' ! (((?h + 1) mod ?N + k) mod ?N)) \<and>
         (refbit (bufDescTable ?t ! (((?h + 1) mod ?N + k) mod ?N)) \<or>
          0 < pinCnt (bufDescTable ?t ! (((?h + 1) mod ?N + k) mod ?N)))" by simp
      then have a: "valid (bufDescTable s' ! ((?h + j) mod ?N))"
        and b: "\<not> refbit (bufDescTable s' ! ((?h + j) mod ?N))"
        and c: "refbit (bufDescTable ?t ! ((?h + j) mod ?N)) \<or> 0 < pinCnt (bufDescTable ?t ! ((?h + j) mod ?N))"
        unfolding eq by blast+
      from c st clock_rel_fields(1) [OF st, of "(?h + j) mod ?N"]
      have "refbit (bufDescTable s ! ((?h + j) mod ?N)) \<or> 0 < pinCnt (bufDescTable s ! ((?h + j) mod ?N))"
        unfolding clock_rel_def by metis
      with a b show ?thesis by blast
    qed
  qed
qed

lemma mod_cover:
  fixes c N i :: nat
  assumes "i < N"
  shows "\<exists>j<N. (c + j) mod N = i"
proof -
  let ?j = "(i + (N - c mod N)) mod N"
  have "?j < N" using assms by simp
  moreover have "(c + ?j) mod N = i"
  proof -
    have "(c + ?j) mod N = (c mod N + (i + (N - c mod N))) mod N"
      by (metis mod_add_left_eq mod_add_right_eq)
    also have "c mod N + (i + (N - c mod N)) = i + N"
    proof -
      have "c mod N < N" using assms by simp
      then show ?thesis by arith
    qed
    also have "(i + N) mod N = i" using assms by simp
    finally show ?thesis .
  qed
  ultimately show ?thesis by blast
qed

lemma sweep_None_all:
  assumes "sweep (numBufs s) s = (Inr None, s')" and "wf_pool s"
  shows "\<forall>i<numBufs s. valid (bufDescTable s' ! i) \<and> \<not> refbit (bufDescTable s' ! i) \<and>
           (refbit (bufDescTable s ! i) \<or> 0 < pinCnt (bufDescTable s ! i))"
proof (intro allI impI)
  fix i assume i: "i < numBufs s"
  then have pos: "0 < numBufs s" by simp
  from mod_cover [OF i, of "clockHand (advanceClock s)"]
  obtain j where j: "j < numBufs s" "(clockHand (advanceClock s) + j) mod numBufs s = i" by blast
  from sweep_None_visited [OF assms(1) pos assms(2)] j
  show "valid (bufDescTable s' ! i) \<and> \<not> refbit (bufDescTable s' ! i) \<and>
           (refbit (bufDescTable s ! i) \<or> 0 < pinCnt (bufDescTable s ! i))"
    by blast
qed

text \<open>
  After a sweep that chose no frame, a second sweep chooses one if some frame is
  unpinned.
\<close>

lemma second_sweep_selects:
  assumes "sweep (numBufs s) s = (Inr None, s')" and "wf_pool s"
    and "somePinCntZero (bufDescTable s') (numBufs s')"
  shows "fst (sweep (numBufs s') s') \<noteq> Inr None"
proof
  assume a: "fst (sweep (numBufs s') s') = Inr None"
  then obtain s'' where s'': "sweep (numBufs s') s' = (Inr None, s'')"
    by (cases "sweep (numBufs s') s'") simp
  have rel: "clock_rel s s'" using assms(1) by (rule sweep_None)
  then have N: "numBufs s' = numBufs s" by (simp add: clock_rel_def)
  have wf': "wf_pool s'" using rel assms(2) by (rule wf_pool_clock_rel)
  from assms(3) obtain i where i: "i < numBufs s'" "pinCnt (bufDescTable s' ! i) = 0"
    by (auto simp: somePinCntZero_iff)
  from sweep_None_all [OF assms(1,2)] i N have "\<not> refbit (bufDescTable s' ! i)" by simp
  moreover from sweep_None_all [OF s'' wf'] i
  have "refbit (bufDescTable s' ! i) \<or> 0 < pinCnt (bufDescTable s' ! i)" by blast
  ultimately show False using i by simp
qed

subsection \<open>The outcome of allocBuf\<close>

lemma sweep_Some_less:
  "sweep n s = (Inr (Some v), s') \<Longrightarrow> 0 < numBufs s \<Longrightarrow> v < numBufs s"
proof (induction n arbitrary: s)
  case 0
  then show ?case by simp
next
  case (Suc n)
  let ?s1 = "advanceClock s"
  let ?h = "clockHand ?s1"
  let ?d = "bufDescTable ?s1 ! ?h"
  let ?s2 = "?s1\<lparr>bufDescTable := (bufDescTable ?s1)[?h := ?d\<lparr>refbit := False\<rparr>]\<rparr>"
  have N: "numBufs ?s1 = numBufs s" "numBufs ?s2 = numBufs s" by (simp_all add: advanceClock_def)
  from Suc.prems(2) have h: "?h < numBufs s" by (rule clockHand_advanceClock_less)
  from Suc.prems(1) have "v = ?h \<or> sweep n ?s2 = (Inr (Some v), s') \<or> sweep n ?s1 = (Inr (Some v), s')"
    by (auto simp: Let_def split: if_splits sum.splits)
  with h Suc.IH [of ?s1] Suc.IH [of ?s2] N Suc.prems(2) show ?case by auto
qed

lemma sweep_Inl_less:
  "sweep n s = (Inl e, s') \<Longrightarrow> 0 < numBufs s \<Longrightarrow> clockHand s' < numBufs s"
proof (induction n arbitrary: s)
  case 0
  then show ?case by simp
next
  case (Suc n)
  let ?s1 = "advanceClock s"
  let ?h = "clockHand ?s1"
  let ?d = "bufDescTable ?s1 ! ?h"
  let ?s2 = "?s1\<lparr>bufDescTable := (bufDescTable ?s1)[?h := ?d\<lparr>refbit := False\<rparr>]\<rparr>"
  have N: "numBufs ?s1 = numBufs s" "numBufs ?s2 = numBufs s" by (simp_all add: advanceClock_def)
  from Suc.prems(2) have h: "?h < numBufs s" by (rule clockHand_advanceClock_less)
  from Suc.prems(1) have "s' = ?s1 \<or> sweep n ?s2 = (Inl e, s') \<or> sweep n ?s1 = (Inl e, s')"
    by (auto simp: Let_def split: if_splits sum.splits)
  with h Suc.IH [of ?s1] Suc.IH [of ?s2] N Suc.prems(2) show ?case by auto
qed

lemma alloc_post_rel: "clock_rel s s0 \<Longrightarrow> alloc_post s0 r s' \<Longrightarrow> alloc_post s r s'"
  unfolding alloc_post_def
  by (cases r) (auto intro: clock_rel_trans simp: clock_rel_def)

lemma evictFrame_Inl: "evictFrame s h = Inl e \<Longrightarrow> e = NullFileDereference"
  by (auto simp: evictFrame_def Let_def split: if_splits option.splits)

lemma allocBuf_sweeps_post:
  "allocBuf_sweeps k s = Some (r, s') \<Longrightarrow> alloc_post s r s'"
proof (induction k arbitrary: s)
  case 0
  then show ?case by simp
next
  case (Suc k)
  obtain x t where sw: "sweep (numBufs s) s = (x, t)" by (cases "sweep (numBufs s) s")
  show ?case
  proof (cases x)
    case (Inl e)
    with Suc.prems sw have r: "r = Inl e" "s' = t" by simp_all
    from sw Inl have e: "sweep (numBufs s) s = (Inl e, t)" by simp
    then have "0 < numBufs s" by (cases "numBufs s") auto
    with sweep_Inl_less [OF e] have "clockHand t < numBufs s" by simp
    with sweep_Inl [OF e] evictFrame_Inl [of t "clockHand t" e] r
    show ?thesis by (auto simp: alloc_post_def)
  next
    case (Inr opt)
    show ?thesis
    proof (cases opt)
      case (Some v)
      with Suc.prems sw Inr have r: "r = Inr v" "s' = t" by simp_all
      from sw Inr Some have e: "sweep (numBufs s) s = (Inr (Some v), t)" by simp
      then have "0 < numBufs s" by (cases "numBufs s") auto
      with sweep_Some_less [OF e] have "v < numBufs s" by simp
      with sweep_Some [OF e] r show ?thesis by (auto simp: alloc_post_def)
    next
      case None
      with sw Inr have e: "sweep (numBufs s) s = (Inr None, t)" by simp
      have rel: "clock_rel s t" using e by (rule sweep_None)
      show ?thesis
      proof (cases "somePinCntZero (bufDescTable t) (numBufs t)")
        case True
        with Suc.prems e have "allocBuf_sweeps k t = Some (r, s')" by simp
        from Suc.IH [OF this] rel show ?thesis by (rule alloc_post_rel [rotated])
      next
        case False
        with Suc.prems e have "r = Inl BufferExceededException" "s' = t" by simp_all
        with rel False show ?thesis by (auto simp: alloc_post_def)
      qed
    qed
  qed
qed

lemma allocBuf_two_sweeps:
  assumes "wf_pool s"
  shows "allocBuf s = allocBuf_sweeps 2 s \<and> allocBuf_sweeps 2 s \<noteq> None"
proof -
  obtain x t where sw: "sweep (numBufs s) s = (x, t)" by (cases "sweep (numBufs s) s")
  have two: "allocBuf_sweeps 2 s = allocBuf_sweeps (Suc (Suc 0)) s" by (simp add: numeral_2_eq_2)
  show ?thesis
  proof (cases "x = Inr None \<and> somePinCntZero (bufDescTable t) (numBufs t)")
    case False
    with sw show ?thesis
      unfolding two by (subst allocBuf.simps) (auto split: sum.splits option.splits)
  next
    case True
    with sw have e: "sweep (numBufs s) s = (Inr None, t)" by simp
    obtain y u where sw2: "sweep (numBufs t) t = (y, u)" by (cases "sweep (numBufs t) t")
    from second_sweep_selects [OF e assms] True sw2 have y: "y \<noteq> Inr None" by simp
    have 1: "allocBuf s = allocBuf t"
      by (subst allocBuf.simps) (simp add: e True)
    have 2: "allocBuf t = allocBuf_sweeps (Suc 0) t \<and> allocBuf_sweeps (Suc 0) t \<noteq> None"
      using sw2 y by (subst allocBuf.simps) (auto split: sum.splits option.splits)
    have 3: "allocBuf_sweeps (Suc (Suc 0)) s = allocBuf_sweeps (Suc 0) t"
      using e True by simp
    from 1 2 3 show ?thesis unfolding two by simp
  qed
qed

lemma allocBuf_post:
  assumes "wf_pool s" "allocBuf s = Some (r, s')"
  shows "alloc_post s r s'"
  using allocBuf_two_sweeps [OF assms(1)] assms(2) allocBuf_sweeps_post [of 2 s r s'] by simp

subsection \<open>Agreement of index and descriptors\<close>

lemma index_agrees_wf: "index_agrees s \<Longrightarrow> wf_pool s"
  by (simp add: index_agrees_def)

lemma index_agrees_hit:
  "index_agrees s \<Longrightarrow> hashTable s (f, p) = Some fr \<Longrightarrow>
   fr < numBufs s \<and> fr < length (bufDescTable s) \<and> valid (bufDescTable s ! fr) \<and>
   file_ptr (bufDescTable s ! fr) = Some f \<and> pageNo (bufDescTable s ! fr) = p"
  unfolding index_agrees_def wf_pool_def by metis

lemma index_agrees_valid:
  "index_agrees s \<Longrightarrow> fr < numBufs s \<Longrightarrow> valid (bufDescTable s ! fr) \<Longrightarrow>
   \<exists>f. file_ptr (bufDescTable s ! fr) = Some f \<and> hashTable s (f, pageNo (bufDescTable s ! fr)) = Some fr"
  unfolding index_agrees_def by blast

lemma index_agrees_invalid:
  "index_agrees s \<Longrightarrow> fr < numBufs s \<Longrightarrow> \<not> valid (bufDescTable s ! fr) \<Longrightarrow>
   BufDesc_Clear (bufDescTable s ! fr) = bufDescTable s ! fr"
  unfolding index_agrees_def by blast

lemma cleared_fields:
  assumes "BufDesc_Clear d = d"
  shows "file_ptr d = None" "pinCnt d = 0" "\<not> dirty d" "\<not> refbit d" "\<not> valid d" "pageNo d = 0"
proof -
  from arg_cong [OF assms, of file_ptr] show "file_ptr d = None" by (simp add: BufDesc_Clear_def)
  from arg_cong [OF assms, of pinCnt] show "pinCnt d = 0" by (simp add: BufDesc_Clear_def)
  from arg_cong [OF assms, of dirty] show "\<not> dirty d" by (simp add: BufDesc_Clear_def)
  from arg_cong [OF assms, of refbit] show "\<not> refbit d" by (simp add: BufDesc_Clear_def)
  from arg_cong [OF assms, of valid] show "\<not> valid d" by (simp add: BufDesc_Clear_def)
  from arg_cong [OF assms, of pageNo] show "pageNo d = 0" by (simp add: BufDesc_Clear_def)
qed

lemma BufDesc_Clear_idem: "BufDesc_Clear (BufDesc_Clear d) = BufDesc_Clear d"
  by (simp add: BufDesc_Clear_def)

text \<open>The state changes that keep the index and the descriptors in agreement.\<close>

lemma index_agrees_other_fields:
  assumes "index_agrees s"
  shows "index_agrees (s\<lparr>files := F, iolog := L, clockHand := c\<rparr>)"
  using assms by (simp add: index_agrees_def wf_pool_def)

lemma index_agrees_cong:
  assumes "index_agrees s" "numBufs s' = numBufs s" "bufDescTable s' = bufDescTable s"
    "length (bufPool s') = length (bufPool s)" "hashTable s' = hashTable s"
  shows "index_agrees s'"
  using assms by (simp add: index_agrees_def wf_pool_def)

lemma index_agreesI:
  assumes "wf_pool s"
    and "\<And>f p fr. hashTable s (f, p) = Some fr \<Longrightarrow>
          fr < numBufs s \<and> valid (bufDescTable s ! fr) \<and>
          file_ptr (bufDescTable s ! fr) = Some f \<and> pageNo (bufDescTable s ! fr) = p"
    and "\<And>fr. fr < numBufs s \<Longrightarrow> valid (bufDescTable s ! fr) \<Longrightarrow>
          \<exists>f. file_ptr (bufDescTable s ! fr) = Some f \<and>
              hashTable s (f, pageNo (bufDescTable s ! fr)) = Some fr"
    and "\<And>fr. fr < numBufs s \<Longrightarrow> \<not> valid (bufDescTable s ! fr) \<Longrightarrow>
          BufDesc_Clear (bufDescTable s ! fr) = bufDescTable s ! fr"
  shows "index_agrees s"
  unfolding index_agrees_def using assms by blast

lemma index_agrees_update_valid:
  assumes ia: "index_agrees s" and fr: "fr < numBufs s" and v: "valid (bufDescTable s ! fr)"
    and d: "valid d'" "file_ptr d' = file_ptr (bufDescTable s ! fr)" "pageNo d' = pageNo (bufDescTable s ! fr)"
  shows "index_agrees (s\<lparr>bufDescTable := (bufDescTable s)[fr := d']\<rparr>)"
    (is "index_agrees ?s'")
proof (rule index_agreesI)
  from ia have len: "length (bufDescTable s) = numBufs s" by (simp add: index_agrees_def wf_pool_def)
  have nth: "bufDescTable ?s' ! i = (if i = fr then d' else bufDescTable s ! i)" if "i < numBufs s" for i
    using that len fr by (simp add: nth_list_update)
  show "wf_pool ?s'" using ia by (simp add: index_agrees_def wf_pool_def)
  {
    fix f p i assume "hashTable ?s' (f, p) = Some i"
    then have h: "hashTable s (f, p) = Some i" by simp
    note hit = index_agrees_hit [OF ia h]
    then have "i < numBufs s" by simp
    from nth [OF this] hit d
    show "i < numBufs ?s' \<and> valid (bufDescTable ?s' ! i) \<and>
          file_ptr (bufDescTable ?s' ! i) = Some f \<and> pageNo (bufDescTable ?s' ! i) = p"
      by (cases "i = fr") simp_all
  }
  {
    fix i assume i: "i < numBufs ?s'" and vi: "valid (bufDescTable ?s' ! i)"
    from i have i': "i < numBufs s" by simp
    from vi nth [OF i'] v have "valid (bufDescTable s ! i)" by (auto split: if_splits)
    from index_agrees_valid [OF ia i' this] nth [OF i'] d
    show "\<exists>f. file_ptr (bufDescTable ?s' ! i) = Some f \<and>
              hashTable ?s' (f, pageNo (bufDescTable ?s' ! i)) = Some i"
      by (cases "i = fr") simp_all
  }
  {
    fix i assume i: "i < numBufs ?s'" and vi: "\<not> valid (bufDescTable ?s' ! i)"
    from i have i': "i < numBufs s" by simp
    from vi nth [OF i'] d have ne: "i \<noteq> fr" and "\<not> valid (bufDescTable s ! i)" by (auto split: if_splits)
    from index_agrees_invalid [OF ia i' this(2)] nth [OF i'] ne
    show "BufDesc_Clear (bufDescTable ?s' ! i) = bufDescTable ?s' ! i"
      by simp
  }
qed

lemma index_agrees_clear:
  assumes ia: "index_agrees s" and h: "hashTable s (f, p) = Some fr"
  shows "index_agrees (s\<lparr>hashTable := (hashTable s)((f, p) := None),
                          bufDescTable := (bufDescTable s)[fr := BufDesc_Clear (bufDescTable s ! fr)]\<rparr>)"
    (is "index_agrees ?s'")
proof (rule index_agreesI)
  from ia have len: "length (bufDescTable s) = numBufs s" by (simp add: index_agrees_def wf_pool_def)
  note hit = index_agrees_hit [OF ia h]
  have nth: "bufDescTable ?s' ! i = (if i = fr then BufDesc_Clear (bufDescTable s ! fr) else bufDescTable s ! i)"
    if "i < numBufs s" for i
    using that len hit by (simp add: nth_list_update)
  show "wf_pool ?s'" using ia by (simp add: index_agrees_def wf_pool_def)
  {
    fix g q i assume a: "hashTable ?s' (g, q) = Some i"
    then have ne: "(g, q) \<noteq> (f, p)" and h': "hashTable s (g, q) = Some i" by (auto split: if_splits)
    note hit' = index_agrees_hit [OF ia h']
    from hit hit' ne have "i \<noteq> fr" by auto
    moreover from hit' have "i < numBufs s" by simp
    ultimately show "i < numBufs ?s' \<and> valid (bufDescTable ?s' ! i) \<and>
          file_ptr (bufDescTable ?s' ! i) = Some g \<and> pageNo (bufDescTable ?s' ! i) = q"
      using hit' nth [of i] by simp
  }
  {
    fix i assume i: "i < numBufs ?s'" and vi: "valid (bufDescTable ?s' ! i)"
    from i have i': "i < numBufs s" by simp
    from vi nth [OF i'] have ne: "i \<noteq> fr" and v: "valid (bufDescTable s ! i)"
      by (auto simp: BufDesc_Clear_def split: if_splits)
    from index_agrees_valid [OF ia i' v] obtain g where
      g: "file_ptr (bufDescTable s ! i) = Some g" "hashTable s (g, pageNo (bufDescTable s ! i)) = Some i"
      by blast
    from g(2) h ne have "(g, pageNo (bufDescTable s ! i)) \<noteq> (f, p)" by auto
    with g nth [OF i'] ne
    show "\<exists>f. file_ptr (bufDescTable ?s' ! i) = Some f \<and>
              hashTable ?s' (f, pageNo (bufDescTable ?s' ! i)) = Some i"
      by auto
  }
  {
    fix i assume i: "i < numBufs ?s'" and vi: "\<not> valid (bufDescTable ?s' ! i)"
    from i have i': "i < numBufs s" by simp
    show "BufDesc_Clear (bufDescTable ?s' ! i) = bufDescTable ?s' ! i"
    proof (cases "i = fr")
      case True
      with nth [OF i'] show ?thesis by (simp add: BufDesc_Clear_idem)
    next
      case False
      with vi nth [OF i'] have "\<not> valid (bufDescTable s ! i)" by simp
      from index_agrees_invalid [OF ia i' this] nth [OF i'] False show ?thesis by simp
    qed
  }
qed

lemma index_agrees_set:
  assumes ia: "index_agrees s" and fr: "fr < numBufs s" and nv: "\<not> valid (bufDescTable s ! fr)"
    and miss: "hashTable s (f, p) = None"
    and d: "valid d'" "file_ptr d' = Some f" "pageNo d' = p"
  shows "index_agrees (s\<lparr>hashTable := (hashTable s)((f, p) \<mapsto> fr),
                          bufDescTable := (bufDescTable s)[fr := d']\<rparr>)"
    (is "index_agrees ?s'")
proof (rule index_agreesI)
  from ia have len: "length (bufDescTable s) = numBufs s" by (simp add: index_agrees_def wf_pool_def)
  have nth: "bufDescTable ?s' ! i = (if i = fr then d' else bufDescTable s ! i)"
    if "i < numBufs s" for i
    using that len fr by (simp add: nth_list_update)
  show "wf_pool ?s'" using ia by (simp add: index_agrees_def wf_pool_def)
  {
    fix g q i assume a: "hashTable ?s' (g, q) = Some i"
    show "i < numBufs ?s' \<and> valid (bufDescTable ?s' ! i) \<and>
          file_ptr (bufDescTable ?s' ! i) = Some g \<and> pageNo (bufDescTable ?s' ! i) = q"
    proof (cases "(g, q) = (f, p)")
      case True
      with a have "i = fr" by simp
      with True fr d nth [of fr] show ?thesis by simp
    next
      case False
      with a have h': "hashTable s (g, q) = Some i" by (auto split: if_splits)
      note hit' = index_agrees_hit [OF ia h']
      with nv have "i \<noteq> fr" by auto
      moreover from hit' have "i < numBufs s" by simp
      ultimately show ?thesis using hit' nth [of i] by simp
    qed
  }
  {
    fix i assume i: "i < numBufs ?s'" and vi: "valid (bufDescTable ?s' ! i)"
    from i have i': "i < numBufs s" by simp
    show "\<exists>f. file_ptr (bufDescTable ?s' ! i) = Some f \<and>
              hashTable ?s' (f, pageNo (bufDescTable ?s' ! i)) = Some i"
    proof (cases "i = fr")
      case True
      with nth [OF i'] d show ?thesis by simp
    next
      case False
      with vi nth [OF i'] have v: "valid (bufDescTable s ! i)" by simp
      from index_agrees_valid [OF ia i' v] obtain g where
        g: "file_ptr (bufDescTable s ! i) = Some g" "hashTable s (g, pageNo (bufDescTable s ! i)) = Some i"
        by blast
      from g(2) miss have "(g, pageNo (bufDescTable s ! i)) \<noteq> (f, p)" by auto
      with g nth [OF i'] False show ?thesis by auto
    qed
  }
  {
    fix i assume i: "i < numBufs ?s'" and vi: "\<not> valid (bufDescTable ?s' ! i)"
    from i have i': "i < numBufs s" by simp
    from vi nth [OF i'] d have ne: "i \<noteq> fr" and "\<not> valid (bufDescTable s ! i)" by (auto split: if_splits)
    from index_agrees_invalid [OF ia i' this(2)] nth [OF i'] ne
    show "BufDesc_Clear (bufDescTable ?s' ! i) = bufDescTable ?s' ! i" by simp
  }
qed

lemma index_agrees_clock_rel:
  assumes rel: "clock_rel s s'" and ia: "index_agrees s"
  shows "index_agrees s'"
proof (rule index_agreesI)
  note fl = clock_rel_fields [OF rel]
  from rel have eqs: "numBufs s' = numBufs s" "hashTable s' = hashTable s" by (simp_all add: clock_rel_def)
  show "wf_pool s'" using rel index_agrees_wf [OF ia] by (rule wf_pool_clock_rel)
  {
    fix f p fr assume "hashTable s' (f, p) = Some fr"
    with eqs have "hashTable s (f, p) = Some fr" by simp
    from index_agrees_hit [OF ia this] fl eqs
    show "fr < numBufs s' \<and> valid (bufDescTable s' ! fr) \<and>
          file_ptr (bufDescTable s' ! fr) = Some f \<and> pageNo (bufDescTable s' ! fr) = p"
      by simp
  }
  {
    fix fr assume "fr < numBufs s'" "valid (bufDescTable s' ! fr)"
    with eqs fl have "fr < numBufs s" "valid (bufDescTable s ! fr)" by simp_all
    from index_agrees_valid [OF ia this] fl eqs
    show "\<exists>f. file_ptr (bufDescTable s' ! fr) = Some f \<and>
              hashTable s' (f, pageNo (bufDescTable s' ! fr)) = Some fr"
      by simp
  }
  {
    fix fr assume "fr < numBufs s'" "\<not> valid (bufDescTable s' ! fr)"
    with eqs fl have "fr < numBufs s" "\<not> valid (bufDescTable s ! fr)" by simp_all
    from index_agrees_invalid [OF ia this] have c: "BufDesc_Clear (bufDescTable s ! fr) = bufDescTable s ! fr" .
    from cleared_fields(4) [OF c] rel have nr: "\<not> refbit (bufDescTable s ! fr)" "\<not> refbit (bufDescTable s' ! fr)"
      by (auto simp: clock_rel_def)
    from rel have "(bufDescTable s' ! fr)\<lparr>refbit := False\<rparr> = (bufDescTable s ! fr)\<lparr>refbit := False\<rparr>"
      by (simp add: clock_rel_def)
    moreover have "(bufDescTable s' ! fr)\<lparr>refbit := False\<rparr> = bufDescTable s' ! fr"
      using nr(2) by (cases "bufDescTable s' ! fr") simp
    moreover have "(bufDescTable s ! fr)\<lparr>refbit := False\<rparr> = bufDescTable s ! fr"
      using nr(1) by (cases "bufDescTable s ! fr") simp
    ultimately have "bufDescTable s' ! fr = bufDescTable s ! fr" by simp
    with c show "BufDesc_Clear (bufDescTable s' ! fr) = bufDescTable s' ! fr" by simp
  }
qed

lemma evictFrame_agrees:
  assumes ia: "index_agrees s" and h: "h < numBufs s" and v: "valid (bufDescTable s ! h)"
  shows "\<exists>f. file_ptr (bufDescTable s ! h) = Some f \<and> evictFrame s h = Inr (evicted s h f)"
proof -
  from index_agrees_valid [OF ia h v] obtain f where
    f: "file_ptr (bufDescTable s ! h) = Some f" "hashTable s (f, pageNo (bufDescTable s ! h)) = Some h"
    by blast
  then have "evictFrame s h = Inr (evicted s h f)"
    by (simp add: evictFrame_def evicted_def removeVictim_def ht_remove_def file_writePage_def Let_def)
  with f show ?thesis by blast
qed

lemma index_agrees_evicted:
  assumes ia: "index_agrees s" and h: "h < numBufs s" and v: "valid (bufDescTable s ! h)"
    and f: "file_ptr (bufDescTable s ! h) = Some f"
  shows "index_agrees (evicted s h f)"
proof -
  from index_agrees_valid [OF ia h v] f
  have hit: "hashTable s (f, pageNo (bufDescTable s ! h)) = Some h" by simp
  let ?c = "s\<lparr>hashTable := (hashTable s)((f, pageNo (bufDescTable s ! h)) := None),
                bufDescTable := (bufDescTable s)[h := BufDesc_Clear (bufDescTable s ! h)]\<rparr>"
  have "index_agrees ?c" using ia hit by (rule index_agrees_clear)
  then show ?thesis
    by (rule index_agrees_cong) (simp_all add: evicted_def Let_def)
qed

lemma allocBuf_agrees:
  assumes ia: "index_agrees s" and a: "allocBuf s = Some (r, s')"
  shows "index_agrees s'"
    and "r = Inr v \<Longrightarrow> v < numBufs s \<and> \<not> valid (bufDescTable s' ! v)"
    and "r = Inl e \<Longrightarrow> e = BufferExceededException"
    and "hashTable s' k \<noteq> None \<Longrightarrow> hashTable s' k = hashTable s k"
    and "files s k \<noteq> None \<Longrightarrow> files s' k \<noteq> None"
    and "numBufs s' = numBufs s"
proof -
  from allocBuf_post [OF index_agrees_wf [OF ia] a] obtain s1 where
    rel: "clock_rel s s1" and
    c: "case r of
           Inr v \<Rightarrow>
             v < numBufs s \<and> clockHand s1 = v \<and>
             (if valid (bufDescTable s1 ! v)
              then \<not> refbit (bufDescTable s1 ! v) \<and> \<not> 0 < pinCnt (bufDescTable s1 ! v) \<and>
                   evictFrame s1 v = Inr s'
              else s' = s1)
         | Inl e \<Rightarrow>
             s' = s1 \<and>
             (if e = BufferExceededException
              then \<not> somePinCntZero (bufDescTable s1) (numBufs s1)
              else clockHand s1 < numBufs s \<and> valid (bufDescTable s1 ! clockHand s1) \<and>
                   \<not> refbit (bufDescTable s1 ! clockHand s1) \<and>
                   \<not> 0 < pinCnt (bufDescTable s1 ! clockHand s1) \<and>
                   evictFrame s1 (clockHand s1) = Inl e)"
    unfolding alloc_post_def by blast
  have ia1: "index_agrees s1" using rel ia by (rule index_agrees_clock_rel)
  from rel have eqs: "numBufs s1 = numBufs s" "hashTable s1 = hashTable s" "files s1 = files s"
    "length (bufDescTable s1) = length (bufDescTable s)"
    by (simp_all add: clock_rel_def)
  from ia have len: "length (bufDescTable s) = numBufs s" by (simp add: index_agrees_def wf_pool_def)
  have all: "index_agrees s' \<and> (\<forall>v. r = Inr v \<longrightarrow> v < numBufs s \<and> \<not> valid (bufDescTable s' ! v)) \<and>
      (\<forall>e. r = Inl e \<longrightarrow> e = BufferExceededException) \<and>
      (\<forall>k. hashTable s' k \<noteq> None \<longrightarrow> hashTable s' k = hashTable s k) \<and>
      (\<forall>k. files s k \<noteq> None \<longrightarrow> files s' k \<noteq> None) \<and> numBufs s' = numBufs s"
  proof (cases r)
    case (Inl e)
    with c have s': "s' = s1" by simp
    have "e = BufferExceededException"
    proof (rule ccontr)
      assume "e \<noteq> BufferExceededException"
      with c Inl have "clockHand s1 < numBufs s1" "valid (bufDescTable s1 ! clockHand s1)"
        "evictFrame s1 (clockHand s1) = Inl e" using eqs by simp_all
      with evictFrame_agrees [OF ia1 this(1,2)] show False by auto
    qed
    with Inl s' ia1 eqs show ?thesis by simp
  next
    case (Inr w)
    with c have w: "w < numBufs s" "clockHand s1 = w" by simp_all
    show ?thesis
    proof (cases "valid (bufDescTable s1 ! w)")
      case False
      with c Inr have "s' = s1" by simp
      with Inr False w ia1 eqs show ?thesis by simp
    next
      case True
      with c Inr have ev: "evictFrame s1 w = Inr s'" by simp
      from w eqs have w1: "w < numBufs s1" by simp
      from evictFrame_agrees [OF ia1 w1 True] ev obtain f where
        f: "file_ptr (bufDescTable s1 ! w) = Some f" "s' = evicted s1 w f" by auto
      have "index_agrees s'" unfolding f(2) using ia1 w1 True f(1) by (rule index_agrees_evicted)
      moreover have "\<not> valid (bufDescTable s' ! w)"
        using w eqs len by (simp add: f(2) evicted_def Let_def BufDesc_Clear_def)
      moreover have "\<forall>k. hashTable s' k \<noteq> None \<longrightarrow> hashTable s' k = hashTable s k"
        using eqs by (simp add: f(2) evicted_def Let_def)
      moreover have "\<forall>k. files s k \<noteq> None \<longrightarrow> files s' k \<noteq> None"
        using eqs by (simp add: f(2) evicted_def Let_def)
      moreover have "numBufs s' = numBufs s"
        using eqs by (simp add: f(2) evicted_def Let_def)
      ultimately show ?thesis using Inr w by simp
    qed
  qed
  from all show "index_agrees s'" by simp
  from all show "r = Inr v \<Longrightarrow> v < numBufs s \<and> \<not> valid (bufDescTable s' ! v)" by simp
  from all show "r = Inl e \<Longrightarrow> e = BufferExceededException" by simp
  from all show "hashTable s' k \<noteq> None \<Longrightarrow> hashTable s' k = hashTable s k" by blast
  from all show "files s k \<noteq> None \<Longrightarrow> files s' k \<noteq> None" by blast
  from all show "numBufs s' = numBufs s" by simp
qed

subsection \<open>Evaluation on concrete pools\<close>

lemma somePinCntZero_clock_rel:
  assumes "clock_rel s s'"
  shows "somePinCntZero (bufDescTable s') (numBufs s') = somePinCntZero (bufDescTable s) (numBufs s)"
proof -
  from assms have "numBufs s' = numBufs s" by (simp add: clock_rel_def)
  with clock_rel_fields(1) [OF assms] show ?thesis by (simp add: somePinCntZero_iff)
qed

lemma sweep_numeral: "sweep (numeral k) s = sweep (Suc (pred_numeral k)) s"
  by (simp add: numeral_eq_Suc)

lemma allocBuf_sweeps_numeral:
  "allocBuf_sweeps (numeral k) s = allocBuf_sweeps (Suc (pred_numeral k)) s"
  by (simp add: numeral_eq_Suc)

lemma somePinCntZero_numeral:
  "somePinCntZero tbl (numeral k) = somePinCntZero tbl (Suc (pred_numeral k))"
  by (simp add: numeral_eq_Suc)

lemmas eval_simps =
  sweep_numeral allocBuf_sweeps_numeral somePinCntZero_numeral advanceClock_def evictFrame_def
  removeVictim_def ht_remove_def ht_lookup_def ht_insert_def file_writePage_def file_readPage_def
  file_allocatePage_def file_deletePage_def BufDesc_Clear_def BufDesc_Set_def pinCnt_incr_def
  Let_def

lemma wf_pool_with: "wf_pool (pool_with r)"
  by (simp add: wf_pool_def pool_with_def)

lemma index_agrees_pool_with: "index_agrees (pool_with r)"
proof (rule index_agreesI)
  show "wf_pool (pool_with r)" by (rule wf_pool_with)
  show "fr < numBufs (pool_with r) \<and> valid (bufDescTable (pool_with r) ! fr) \<and>
        file_ptr (bufDescTable (pool_with r) ! fr) = Some f \<and> pageNo (bufDescTable (pool_with r) ! fr) = p"
    if "hashTable (pool_with r) (f, p) = Some fr" for f p fr
    using that by (auto simp: pool_with_def split: if_splits)
  show "\<exists>f. file_ptr (bufDescTable (pool_with r) ! fr) = Some f \<and>
            hashTable (pool_with r) (f, pageNo (bufDescTable (pool_with r) ! fr)) = Some fr"
    if "fr < numBufs (pool_with r)" for fr
  proof -
    from that have "fr = 0 \<or> fr = 1" by (auto simp: pool_with_def)
    then show ?thesis by (auto simp: pool_with_def)
  qed
  show "BufDesc_Clear (bufDescTable (pool_with r) ! fr) = bufDescTable (pool_with r) ! fr"
    if "fr < numBufs (pool_with r)" "\<not> valid (bufDescTable (pool_with r) ! fr)" for fr
  proof -
    from that(1) have "fr = 0 \<or> fr = 1" by (auto simp: pool_with_def)
    with that(2) show ?thesis by (auto simp: pool_with_def)
  qed
qed

subsection \<open>The cases of allocBuf in a pool whose index agrees\<close>

lemma allocBuf_cases:
  assumes ia: "index_agrees s" and a: "allocBuf s = Some (r, s')"
  obtains
    (exceeded) s1 where "clock_rel s s1" "r = Inl BufferExceededException" "s' = s1"
      "\<not> somePinCntZero (bufDescTable s) (numBufs s)"
  | (free) s1 v where "clock_rel s s1" "r = Inr v" "s' = s1" "v < numBufs s"
      "\<not> valid (bufDescTable s ! v)"
  | (evict) s1 v f where "clock_rel s s1" "r = Inr v" "s' = evicted s1 v f" "v < numBufs s"
      "valid (bufDescTable s ! v)" "\<not> 0 < pinCnt (bufDescTable s ! v)"
      "\<not> refbit (bufDescTable s1 ! v)" "file_ptr (bufDescTable s ! v) = Some f"
      "hashTable s (f, pageNo (bufDescTable s ! v)) = Some v"
proof -
  from allocBuf_post [OF index_agrees_wf [OF ia] a] obtain s1 where
    rel: "clock_rel s s1" and
    c: "case r of
           Inr v \<Rightarrow>
             v < numBufs s \<and> clockHand s1 = v \<and>
             (if valid (bufDescTable s1 ! v)
              then \<not> refbit (bufDescTable s1 ! v) \<and> \<not> 0 < pinCnt (bufDescTable s1 ! v) \<and>
                   evictFrame s1 v = Inr s'
              else s' = s1)
         | Inl e \<Rightarrow>
             s' = s1 \<and>
             (if e = BufferExceededException
              then \<not> somePinCntZero (bufDescTable s1) (numBufs s1)
              else clockHand s1 < numBufs s \<and> valid (bufDescTable s1 ! clockHand s1) \<and>
                   \<not> refbit (bufDescTable s1 ! clockHand s1) \<and>
                   \<not> 0 < pinCnt (bufDescTable s1 ! clockHand s1) \<and>
                   evictFrame s1 (clockHand s1) = Inl e)"
    unfolding alloc_post_def by blast
  have ia1: "index_agrees s1" using rel ia by (rule index_agrees_clock_rel)
  note fl = clock_rel_fields [OF rel]
  from rel have eqs: "numBufs s1 = numBufs s" "hashTable s1 = hashTable s"
    by (simp_all add: clock_rel_def)
  show thesis
  proof (cases r)
    case (Inl e)
    from allocBuf_agrees(3) [OF ia a Inl] have e: "e = BufferExceededException" .
    with c Inl have "s' = s1" "\<not> somePinCntZero (bufDescTable s1) (numBufs s1)" by simp_all
    with somePinCntZero_clock_rel [OF rel] rel Inl e show thesis by (auto intro: exceeded)
  next
    case (Inr v)
    with c have v: "v < numBufs s" by simp
    show thesis
    proof (cases "valid (bufDescTable s1 ! v)")
      case False
      with c Inr have "s' = s1" by simp
      with rel Inr v False fl(2) [of v] show thesis by (auto intro: free)
    next
      case True
      with c Inr have ev: "evictFrame s1 v = Inr s'" and np: "\<not> 0 < pinCnt (bufDescTable s1 ! v)"
        and nr: "\<not> refbit (bufDescTable s1 ! v)" by simp_all
      from v eqs have v1: "v < numBufs s1" by simp
      from evictFrame_agrees [OF ia1 v1 True] ev obtain f where
        f: "file_ptr (bufDescTable s1 ! v) = Some f" "s' = evicted s1 v f" by auto
      from index_agrees_valid [OF ia1 v1 True] f(1)
      have "hashTable s1 (f, pageNo (bufDescTable s1 ! v)) = Some v" by simp
      with rel Inr v True np nr f fl [of v] eqs show thesis by (auto intro: evict)
    qed
  qed
qed

lemma advanceClock_fields:
  "numBufs (advanceClock s) = numBufs s"
  "bufDescTable (advanceClock s) = bufDescTable s"
  "bufPool (advanceClock s) = bufPool s"
  "hashTable (advanceClock s) = hashTable s"
  "files (advanceClock s) = files s"
  "iolog (advanceClock s) = iolog s"
  by (simp_all add: advanceClock_def)

lemma advanceClock_eq: "advanceClock s = s\<lparr>clockHand := clockHand (advanceClock s)\<rparr>"
  by (simp add: advanceClock_def)

lemma sweep_invalid:
  assumes "\<not> valid (bufDescTable s ! clockHand (advanceClock s))"
  shows "sweep (Suc n) s = (Inr (Some (clockHand (advanceClock s))), advanceClock s)"
  using assms by (simp add: Let_def advanceClock_fields)

lemma sweep_victim:
  assumes "valid (bufDescTable s ! clockHand (advanceClock s))"
    and "\<not> refbit (bufDescTable s ! clockHand (advanceClock s))"
    and "\<not> 0 < pinCnt (bufDescTable s ! clockHand (advanceClock s))"
  shows "sweep (Suc n) s =
    (case evictFrame (advanceClock s) (clockHand (advanceClock s)) of
       Inl e \<Rightarrow> (Inl e, advanceClock s)
     | Inr s2 \<Rightarrow> (Inr (Some (clockHand (advanceClock s))), s2))"
  using assms by (simp add: Let_def advanceClock_fields)

lemma allocBuf_first_sweep:
  assumes "sweep (numBufs s) s = (Inr (Some v), s')"
  shows "allocBuf s = Some (Inr v, s')"
  using assms by (subst allocBuf.simps) simp

lemma index_agrees_init:
  assumes "bufs < 2 ^ 31"
  shows "index_agrees (BufMgr_init bufs d)"
proof (rule index_agreesI)
  show "wf_pool (BufMgr_init bufs d)" using assms by (simp add: wf_pool_def BufMgr_init_def)
  show "fr < numBufs (BufMgr_init bufs d) \<and> valid (bufDescTable (BufMgr_init bufs d) ! fr) \<and>
        file_ptr (bufDescTable (BufMgr_init bufs d) ! fr) = Some f \<and>
        pageNo (bufDescTable (BufMgr_init bufs d) ! fr) = p"
    if "hashTable (BufMgr_init bufs d) (f, p) = Some fr" for f p fr
    using that by (simp add: BufMgr_init_def)
  show "\<exists>f. file_ptr (bufDescTable (BufMgr_init bufs d) ! fr) = Some f \<and>
            hashTable (BufMgr_init bufs d) (f, pageNo (bufDescTable (BufMgr_init bufs d) ! fr)) = Some fr"
    if "fr < numBufs (BufMgr_init bufs d)" "valid (bufDescTable (BufMgr_init bufs d) ! fr)" for fr
    using that by (simp add: BufMgr_init_def)
  show "BufDesc_Clear (bufDescTable (BufMgr_init bufs d) ! fr) = bufDescTable (BufMgr_init bufs d) ! fr"
    if "fr < numBufs (BufMgr_init bufs d)" for fr
    using that by (simp add: BufMgr_init_def BufDesc_Clear_def)
qed

lemma evictFrame_not_found:
  assumes "file_ptr (bufDescTable s ! h) = Some f" and "hashTable s (f, pageNo (bufDescTable s ! h)) = None"
  shows "evictFrame s h =
    Inr (if dirty (bufDescTable s ! h) then file_writePage s f (bufPool s ! h) else s)"
  using assms by (simp add: evictFrame_def removeVictim_def ht_remove_def file_writePage_def Let_def)

lemma evictFrame_changes:
  assumes "evictFrame s h = Inr s'"
    and "hashTable s' \<noteq> hashTable s \<or> bufDescTable s' \<noteq> bufDescTable s"
  shows "\<exists>f. file_ptr (bufDescTable s ! h) = Some f \<and> hashTable s (f, pageNo (bufDescTable s ! h)) \<noteq> None"
  using assms
  by (auto simp: evictFrame_def removeVictim_def ht_remove_def file_writePage_def Let_def
      split: if_splits option.splits)

lemma index_agrees_iolog: "index_agrees s \<Longrightarrow> index_agrees (s\<lparr>iolog := L\<rparr>)"
  by (erule index_agrees_cong) simp_all

subsection \<open>The loop of flushFile\<close>

lemma flushFrames_skip:
  assumes "\<not> owned s f a"
  shows "flushFrames f (a # ks) s = flushFrames f ks s"
  using assms by (simp add: owned_def Let_def)

lemma flushFrames_stop:
  assumes "blocks_flush s f a"
  shows "flushFrames f (a # ks) s =
    (if 0 < pinCnt (bufDescTable s ! a)
     then Some (PagePinnedException f (pageNo (bufDescTable s ! a)) a)
     else Some (BadBufferException a (dirty (bufDescTable s ! a)) (valid (bufDescTable s ! a))
            (refbit (bufDescTable s ! a))), s)"
  using assms by (auto simp: blocks_flush_def owned_def Let_def)

lemma flushFrames_flush:
  assumes "owned s f a" and "\<not> blocks_flush s f a" and "a < length (bufDescTable s)"
    and "hashTable s (f, pageNo (bufDescTable s ! a)) = Some a"
  shows "flushFrames f (a # ks) s = flushFrames f ks (evicted s a f)"
proof -
  let ?d = "bufDescTable s ! a"
  from assms(1,2) have d: "file_ptr ?d = Some f" "\<not> 0 < pinCnt ?d" "valid ?d"
    by (auto simp: blocks_flush_def owned_def)
  have c: "BufDesc_Clear (?d\<lparr>dirty := False\<rparr>) = BufDesc_Clear ?d"
    by (simp add: BufDesc_Clear_def)
  show ?thesis
  proof (cases "dirty ?d")
    case True
    with d assms(3,4) c show ?thesis
      by (simp add: Let_def ht_remove_def file_writePage_def evicted_def)
  next
    case False
    with d assms(3,4) show ?thesis
      by (simp add: Let_def ht_remove_def evicted_def)
  qed
qed

lemma evicted_fields:
  "numBufs (evicted s a f) = numBufs s"
  "bufPool (evicted s a f) = bufPool s"
  "length (bufDescTable (evicted s a f)) = length (bufDescTable s)"
  "hashTable (evicted s a f) = (hashTable s)((f, pageNo (bufDescTable s ! a)) := None)"
  "iolog (evicted s a f) =
     iolog s @ (if dirty (bufDescTable s ! a) then [WritePage f (bufPool s ! a)] else [])"
  "k \<noteq> a \<Longrightarrow> bufDescTable (evicted s a f) ! k = bufDescTable s ! k"
  "a < length (bufDescTable s) \<Longrightarrow> bufDescTable (evicted s a f) ! a = BufDesc_Clear (bufDescTable s ! a)"
  by (simp_all add: evicted_def Let_def)

lemma flushFrames_upt:
  assumes "length (bufDescTable s) = N"
    and "\<forall>k. a \<le> k \<and> k < N \<and> owned s f k \<and> valid (bufDescTable s ! k) \<longrightarrow>
           hashTable s (f, pageNo (bufDescTable s ! k)) = Some k"
    and "a \<le> k0" and "k0 \<le> N"
    and "\<forall>k. a \<le> k \<and> k < k0 \<longrightarrow> \<not> blocks_flush s f k"
    and "k0 < N \<longrightarrow> blocks_flush s f k0"
    and "flushFrames f [a..<N] s = (r, s')"
  shows "r = (if k0 = N then None
              else if 0 < pinCnt (bufDescTable s ! k0)
                then Some (PagePinnedException f (pageNo (bufDescTable s ! k0)) k0)
                else Some (BadBufferException k0 (dirty (bufDescTable s ! k0))
                       (valid (bufDescTable s ! k0)) (refbit (bufDescTable s ! k0)))) \<and>
         length (bufDescTable s') = N \<and> bufPool s' = bufPool s \<and> numBufs s' = numBufs s \<and>
         (\<forall>k<N. bufDescTable s' ! k =
            (if a \<le> k \<and> k < k0 \<and> owned s f k then BufDesc_Clear (bufDescTable s ! k)
             else bufDescTable s ! k)) \<and>
         (\<forall>key. hashTable s' key =
            (if \<exists>k. a \<le> k \<and> k < k0 \<and> owned s f k \<and> key = (f, pageNo (bufDescTable s ! k))
             then None else hashTable s key)) \<and>
         iolog s' = iolog s @
            map (\<lambda>k. WritePage f (bufPool s ! k))
              (filter (\<lambda>k. owned s f k \<and> dirty (bufDescTable s ! k)) [a..<k0])"
  using assms
proof (induction "k0 - a" arbitrary: a s)
  case 0
  then have a: "a = k0" by simp
  show ?case
  proof (cases "k0 = N")
    case True
    with 0 a show ?thesis by auto
  next
    case False
    with 0 have lt: "k0 < N" and b: "blocks_flush s f k0" by simp_all
    from lt have "[k0..<N] = k0 # [Suc k0..<N]" by (rule upt_conv_Cons)
    with 0(8) a flushFrames_stop [OF b, of "[Suc k0..<N]"] False 0(2)
    show ?thesis by (auto simp del: flushFrames.simps)
  qed
next
  case (Suc m)
  then have lt: "a < k0" "a < N" and m: "m = k0 - Suc a" by simp_all
  from lt have up: "[a..<N] = a # [Suc a..<N]" "[a..<k0] = a # [Suc a..<k0]"
    by (simp_all add: upt_conv_Cons)
  from Suc.prems(5) lt have nb: "\<not> blocks_flush s f a" by simp
  show ?case
  proof (cases "owned s f a")
    case False
    with Suc.prems(7) up have run: "flushFrames f [Suc a..<N] s = (r, s')"
      by (simp add: flushFrames_skip del: flushFrames.simps)
    have IH: "r = (if k0 = N then None
              else if 0 < pinCnt (bufDescTable s ! k0)
                then Some (PagePinnedException f (pageNo (bufDescTable s ! k0)) k0)
                else Some (BadBufferException k0 (dirty (bufDescTable s ! k0))
                       (valid (bufDescTable s ! k0)) (refbit (bufDescTable s ! k0)))) \<and>
         length (bufDescTable s') = N \<and> bufPool s' = bufPool s \<and> numBufs s' = numBufs s \<and>
         (\<forall>k<N. bufDescTable s' ! k =
            (if Suc a \<le> k \<and> k < k0 \<and> owned s f k then BufDesc_Clear (bufDescTable s ! k)
             else bufDescTable s ! k)) \<and>
         (\<forall>key. hashTable s' key =
            (if \<exists>k. Suc a \<le> k \<and> k < k0 \<and> owned s f k \<and> key = (f, pageNo (bufDescTable s ! k))
             then None else hashTable s key)) \<and>
         iolog s' = iolog s @
            map (\<lambda>k. WritePage f (bufPool s ! k))
              (filter (\<lambda>k. owned s f k \<and> dirty (bufDescTable s ! k)) [Suc a..<k0])"
      using Suc.prems(1,2,4,5,6) lt run by (intro Suc.hyps(1) [OF m]) auto
    have eqk: "(Suc a \<le> k \<and> k < k0 \<and> owned s f k) = (a \<le> k \<and> k < k0 \<and> owned s f k)" for k
      using False by (cases "k = a") auto
    have exq: "(\<exists>k. Suc a \<le> k \<and> k < k0 \<and> owned s f k \<and> key = (f, pageNo (bufDescTable s ! k))) =
               (\<exists>k. a \<le> k \<and> k < k0 \<and> owned s f k \<and> key = (f, pageNo (bufDescTable s ! k)))" for key
      using eqk by blast
    from IH have 1: "r = (if k0 = N then None
              else if 0 < pinCnt (bufDescTable s ! k0)
                then Some (PagePinnedException f (pageNo (bufDescTable s ! k0)) k0)
                else Some (BadBufferException k0 (dirty (bufDescTable s ! k0))
                       (valid (bufDescTable s ! k0)) (refbit (bufDescTable s ! k0))))"
      and 2: "length (bufDescTable s') = N" "bufPool s' = bufPool s" "numBufs s' = numBufs s"
      by blast+
    from IH have "\<forall>k<N. bufDescTable s' ! k =
            (if Suc a \<le> k \<and> k < k0 \<and> owned s f k then BufDesc_Clear (bufDescTable s ! k)
             else bufDescTable s ! k)" by blast
    then have 3: "\<forall>k<N. bufDescTable s' ! k =
            (if a \<le> k \<and> k < k0 \<and> owned s f k then BufDesc_Clear (bufDescTable s ! k)
             else bufDescTable s ! k)" unfolding eqk .
    from IH have "\<forall>key. hashTable s' key =
            (if \<exists>k. Suc a \<le> k \<and> k < k0 \<and> owned s f k \<and> key = (f, pageNo (bufDescTable s ! k))
             then None else hashTable s key)" by blast
    then have 4: "\<forall>key. hashTable s' key =
            (if \<exists>k. a \<le> k \<and> k < k0 \<and> owned s f k \<and> key = (f, pageNo (bufDescTable s ! k))
             then None else hashTable s key)" unfolding exq .
    from IH False have 5: "iolog s' = iolog s @
            map (\<lambda>k. WritePage f (bufPool s ! k))
              (filter (\<lambda>k. owned s f k \<and> dirty (bufDescTable s ! k)) [a..<k0])"
      unfolding up(2) by simp
    from 1 2 3 4 5 show ?thesis by blast
  next
    case True
    from True nb have v: "valid (bufDescTable s ! a)" by (simp add: blocks_flush_def)
    with Suc.prems(2) lt True have hit: "hashTable s (f, pageNo (bufDescTable s ! a)) = Some a"
      by simp
    let ?t = "evicted s a f"
    from lt Suc.prems(1) have al: "a < length (bufDescTable s)" by simp
    note ef = evicted_fields [where s = s and a = a and f = f]
    from Suc.prems(7) up flushFrames_flush [OF True nb al hit, of "[Suc a..<N]"]
    have run: "flushFrames f [Suc a..<N] ?t = (r, s')" by (simp del: flushFrames.simps)
    have same: "bufDescTable ?t ! k = bufDescTable s ! k" if "Suc a \<le> k" for k
      using that ef(6) [of k] by simp
    have own: "owned ?t f k = owned s f k" "blocks_flush ?t f k = blocks_flush s f k" if "Suc a \<le> k" for k
      using same [OF that] by (simp_all add: owned_def blocks_flush_def)
    have h2: "\<forall>k. Suc a \<le> k \<and> k < N \<and> owned ?t f k \<and> valid (bufDescTable ?t ! k) \<longrightarrow>
           hashTable ?t (f, pageNo (bufDescTable ?t ! k)) = Some k"
    proof (intro allI impI)
      fix k assume k: "Suc a \<le> k \<and> k < N \<and> owned ?t f k \<and> valid (bufDescTable ?t ! k)"
      with own(1) [of k] same [of k] Suc.prems(2)
      have "hashTable s (f, pageNo (bufDescTable s ! k)) = Some k" by simp
      moreover from this hit k have "pageNo (bufDescTable s ! k) \<noteq> pageNo (bufDescTable s ! a)"
        by auto
      ultimately show "hashTable ?t (f, pageNo (bufDescTable ?t ! k)) = Some k"
        using same [of k] k by (simp add: ef(4))
    qed
    have IH: "r = (if k0 = N then None
              else if 0 < pinCnt (bufDescTable ?t ! k0)
                then Some (PagePinnedException f (pageNo (bufDescTable ?t ! k0)) k0)
                else Some (BadBufferException k0 (dirty (bufDescTable ?t ! k0))
                       (valid (bufDescTable ?t ! k0)) (refbit (bufDescTable ?t ! k0)))) \<and>
         length (bufDescTable s') = N \<and> bufPool s' = bufPool ?t \<and> numBufs s' = numBufs ?t \<and>
         (\<forall>k<N. bufDescTable s' ! k =
            (if Suc a \<le> k \<and> k < k0 \<and> owned ?t f k then BufDesc_Clear (bufDescTable ?t ! k)
             else bufDescTable ?t ! k)) \<and>
         (\<forall>key. hashTable s' key =
            (if \<exists>k. Suc a \<le> k \<and> k < k0 \<and> owned ?t f k \<and> key = (f, pageNo (bufDescTable ?t ! k))
             then None else hashTable ?t key)) \<and>
         iolog s' = iolog ?t @
            map (\<lambda>k. WritePage f (bufPool ?t ! k))
              (filter (\<lambda>k. owned ?t f k \<and> dirty (bufDescTable ?t ! k)) [Suc a..<k0])"
    proof (rule Suc.hyps(1) [OF m _ h2 _ _ _ _ run])
      show "length (bufDescTable ?t) = N" using Suc.prems(1) by (simp add: ef(3))
      show "Suc a \<le> k0" using lt by simp
      show "k0 \<le> N" by (rule Suc.prems(4))
      show "\<forall>k. Suc a \<le> k \<and> k < k0 \<longrightarrow> \<not> blocks_flush ?t f k"
        using Suc.prems(5) own(2) by simp
      show "k0 < N \<longrightarrow> blocks_flush ?t f k0" using Suc.prems(6) own(2) [of k0] lt by simp
    qed
    have k0: "bufDescTable ?t ! k0 = bufDescTable s ! k0" using same [of k0] lt by simp
    have 1: "r = (if k0 = N then None
              else if 0 < pinCnt (bufDescTable s ! k0)
                then Some (PagePinnedException f (pageNo (bufDescTable s ! k0)) k0)
                else Some (BadBufferException k0 (dirty (bufDescTable s ! k0))
                       (valid (bufDescTable s ! k0)) (refbit (bufDescTable s ! k0))))"
      using IH k0 by simp
    have 2: "length (bufDescTable s') = N" "bufPool s' = bufPool s" "numBufs s' = numBufs s"
      using IH by (simp_all add: ef)
    have 3: "bufDescTable s' ! k =
            (if a \<le> k \<and> k < k0 \<and> owned s f k then BufDesc_Clear (bufDescTable s ! k)
             else bufDescTable s ! k)" if "k < N" for k
    proof (cases "Suc a \<le> k")
      case True
      with IH that own(1) [of k] same [of k] show ?thesis by simp
    next
      case False
      with IH that have e: "bufDescTable s' ! k = bufDescTable ?t ! k" by simp
      show ?thesis
      proof (cases "k = a")
        case True
        with e ef(7) [OF al] \<open>owned s f a\<close> lt show ?thesis by simp
      next
        case ne: False
        with False have "k < a" by simp
        with e ef(6) [of k] show ?thesis by simp
      qed
    qed
    have 4: "hashTable s' key =
            (if \<exists>k. a \<le> k \<and> k < k0 \<and> owned s f k \<and> key = (f, pageNo (bufDescTable s ! k))
             then None else hashTable s key)" for key
    proof -
      have ex: "(\<exists>k. a \<le> k \<and> k < k0 \<and> owned s f k \<and> key = (f, pageNo (bufDescTable s ! k))) \<longleftrightarrow>
            key = (f, pageNo (bufDescTable s ! a)) \<or>
            (\<exists>k. Suc a \<le> k \<and> k < k0 \<and> owned ?t f k \<and> key = (f, pageNo (bufDescTable ?t ! k)))"
        (is "?L \<longleftrightarrow> ?A \<or> ?R")
      proof
        assume ?L
        then obtain k where k: "a \<le> k" "k < k0" "owned s f k" "key = (f, pageNo (bufDescTable s ! k))"
          by blast
        show "?A \<or> ?R"
        proof (cases "k = a")
          case True
          with k show ?thesis by simp
        next
          case False
          with k have "Suc a \<le> k" by simp
          with k own(1) [of k] same [of k] show ?thesis by auto
        qed
      next
        assume "?A \<or> ?R"
        then show ?L
        proof
          assume ?A
          with lt \<open>owned s f a\<close> show ?L by auto
        next
          assume ?R
          then obtain k where k: "Suc a \<le> k" "k < k0" "owned ?t f k"
            "key = (f, pageNo (bufDescTable ?t ! k))" by blast
          with own(1) [of k] same [of k] have "a \<le> k \<and> k < k0 \<and> owned s f k \<and>
            key = (f, pageNo (bufDescTable s ! k))" by simp
          then show ?L by blast
        qed
      qed
      from IH have i: "hashTable s' key =
            (if \<exists>k. Suc a \<le> k \<and> k < k0 \<and> owned ?t f k \<and> key = (f, pageNo (bufDescTable ?t ! k))
             then None else hashTable ?t key)" by blast
      have t: "hashTable ?t key =
            (if key = (f, pageNo (bufDescTable s ! a)) then None else hashTable s key)"
        by (simp add: ef(4))
      have gen: "x = (if P \<or> Q then None else z)"
        if "x = (if Q then None else y)" "y = (if P then None else z)"
        for P Q and x y z :: "FrameId option"
        using that by auto
      show ?thesis unfolding ex by (rule gen [OF i t])
    qed
    have fl: "filter (\<lambda>k. owned ?t f k \<and> dirty (bufDescTable ?t ! k)) [Suc a..<k0] =
              filter (\<lambda>k. owned s f k \<and> dirty (bufDescTable s ! k)) [Suc a..<k0]"
      by (rule filter_cong) (simp_all add: own(1) same)
    have 5: "iolog s' = iolog s @
            map (\<lambda>k. WritePage f (bufPool s ! k))
              (filter (\<lambda>k. owned s f k \<and> dirty (bufDescTable s ! k)) [a..<k0])"
      using IH True unfolding up(2) fl by (simp add: ef)
    from 1 2 3 4 5 show ?thesis by blast
  qed
qed

subsection \<open>The operations keep the index and the descriptors in agreement\<close>

lemma resident_on_diskD: "resident_on_disk s \<Longrightarrow> hashTable s k \<noteq> None \<Longrightarrow> files s k \<noteq> None"
  unfolding resident_on_disk_def by blast

lemma resident_on_diskI:
  assumes "resident_on_disk s"
    and "\<And>k. hashTable s' k \<noteq> None \<Longrightarrow> hashTable s k \<noteq> None \<or> files s' k \<noteq> None"
    and "\<And>k. hashTable s' k \<noteq> None \<Longrightarrow> files s k \<noteq> None \<Longrightarrow> files s' k \<noteq> None"
  shows "resident_on_disk s'"
  unfolding resident_on_disk_def
proof (intro allI impI)
  fix k assume k: "hashTable s' k \<noteq> None"
  from assms(2) [OF k] show "files s' k \<noteq> None"
  proof
    assume "hashTable s k \<noteq> None"
    with assms(1) have "files s k \<noteq> None" by (rule resident_on_diskD)
    with assms(3) [OF k] show ?thesis by simp
  qed
qed

lemma allocBuf_resident:
  assumes "index_agrees s" "resident_on_disk s" "allocBuf s = Some (r, s')"
  shows "resident_on_disk s'"
proof (rule resident_on_diskI [OF assms(2)])
  fix k assume "hashTable s' k \<noteq> None"
  with allocBuf_agrees(4) [OF assms(1,3), of k] show "hashTable s k \<noteq> None \<or> files s' k \<noteq> None"
    by simp
next
  fix k assume "files s k \<noteq> None"
  then show "files s' k \<noteq> None" by (rule allocBuf_agrees(5) [OF assms(1,3)])
qed

lemma index_agrees_install:
  assumes ia: "index_agrees s" and fr: "fr < numBufs s" and nv: "\<not> valid (bufDescTable s ! fr)"
    and miss: "hashTable s (f, p) = None"
    and d: "valid d'" "file_ptr d' = Some f" "pageNo d' = p"
  shows "index_agrees (s\<lparr>bufPool := (bufPool s)[fr := pg], hashTable := (hashTable s)((f, p) \<mapsto> fr),
                          bufDescTable := (bufDescTable s)[fr := d']\<rparr>)"
proof -
  have "index_agrees (s\<lparr>hashTable := (hashTable s)((f, p) \<mapsto> fr),
                          bufDescTable := (bufDescTable s)[fr := d']\<rparr>)"
    using ia fr nv miss d by (rule index_agrees_set)
  then show ?thesis by (rule index_agrees_cong) simp_all
qed


lemma pinCnt_incr_max: "pinCnt_incr (2 ^ 31 - 1) = - (2 ^ 31)"
  by (simp add: pinCnt_incr_def)

lemma readPage_hit:
  assumes "hashTable s (f, p) = Some fid" and "fid < length (bufDescTable s)"
  shows "readPage s f p =
          Some (Inr fid,
            s\<lparr>bufDescTable := (bufDescTable s)[fid :=
                 (bufDescTable s ! fid)\<lparr>pinCnt := pinCnt_incr (pinCnt (bufDescTable s ! fid)),
                                          refbit := True\<rparr>]\<rparr>)"
  using assms by (simp add: readPage_def ht_lookup_def Let_def)

lemma readPage_inv:
  assumes ia: "index_agrees s" and rd: "resident_on_disk s" and run: "readPage s f p = Some (r, s')"
  shows "index_agrees s' \<and> resident_on_disk s'"
proof (cases "hashTable s (f, p)")
  case (Some fid)
  note hit = index_agrees_hit [OF ia Some]
  from readPage_hit [OF Some] hit run
  have s': "s' = s\<lparr>bufDescTable := (bufDescTable s)[fid :=
                 (bufDescTable s ! fid)\<lparr>pinCnt := pinCnt_incr (pinCnt (bufDescTable s ! fid)),
                                          refbit := True\<rparr>]\<rparr>"
    by simp
  have "index_agrees s'" unfolding s' using ia hit by (intro index_agrees_update_valid) simp_all
  moreover have "resident_on_disk s'" using rd by (simp add: s' resident_on_disk_def)
  ultimately show ?thesis ..
next
  case None
  let ?s1 = "s\<lparr>iolog := iolog s @ [ReadPage f p]\<rparr>"
  have ia1: "index_agrees ?s1" using ia by (rule index_agrees_iolog)
  have rd1: "resident_on_disk ?s1" using rd by (simp add: resident_on_disk_def)
  show ?thesis
  proof (cases "files s (f, p)")
    case nf: None
    with None run have "s' = ?s1" by (simp add: readPage_def ht_lookup_def file_readPage_def)
    with ia1 rd1 show ?thesis by simp
  next
    case (Some pg)
    with None run obtain x s2 where al: "allocBuf ?s1 = Some (x, s2)"
      by (cases "allocBuf ?s1") (auto simp: readPage_def ht_lookup_def file_readPage_def)
    note ag = allocBuf_agrees [OF ia1 al]
    have rd2: "resident_on_disk s2" using ia1 rd1 al by (rule allocBuf_resident)
    show ?thesis
    proof (cases x)
      case (Inl e)
      with None Some run al have "s' = s2" by (simp add: readPage_def ht_lookup_def file_readPage_def)
      with ag(1) rd2 show ?thesis by simp
    next
      case (Inr fid)
      from ag(2) [OF Inr] ag(6) have fid: "fid < numBufs s2" "\<not> valid (bufDescTable s2 ! fid)" by simp_all
      from ag(1) fid have l: "fid < length (bufDescTable s2)" by (simp add: index_agrees_def wf_pool_def)
      let ?d = "(bufDescTable s2 ! fid)\<lparr>file_ptr := Some f, pageNo := p, pinCnt := 1,
                     dirty := False, valid := True, refbit := True\<rparr>"
      from None Some run al Inr l
      have s': "s' = s2\<lparr>bufPool := (bufPool s2)[fid := pg],
                hashTable := (hashTable s2)((f, p) \<mapsto> fid),
                bufDescTable := (bufDescTable s2)[fid := ?d]\<rparr>"
        by (simp add: readPage_def ht_lookup_def ht_insert_def file_readPage_def BufDesc_Set_def Let_def)
      from ag(4) [of "(f, p)"] None have miss: "hashTable s2 (f, p) = None"
        by (cases "hashTable s2 (f, p)") auto
      have "index_agrees s'" unfolding s' using ag(1) fid miss by (rule index_agrees_install) simp_all
      moreover have "resident_on_disk s'"
      proof (rule resident_on_diskI [OF rd2])
        fix k assume "hashTable s' k \<noteq> None"
        then show "hashTable s2 k \<noteq> None \<or> files s' k \<noteq> None"
          using ag(5) [of "(f, p)"] Some by (auto simp: s' split: if_splits)
      next
        fix k assume "files s2 k \<noteq> None"
        then show "files s' k \<noteq> None" by (simp add: s')
      qed
      ultimately show ?thesis ..
    qed
  qed
qed

lemma unPinPage_inv:
  assumes ia: "index_agrees s" and rd: "resident_on_disk s" and run: "unPinPage s f p b = (x, s')"
  shows "index_agrees s' \<and> resident_on_disk s'"
proof (cases "hashTable s (f, p)")
  case None
  with run have "s' = s" by (simp add: unPinPage_def ht_lookup_def)
  with ia rd show ?thesis by simp
next
  case (Some fr)
  note hit = index_agrees_hit [OF ia Some]
  show ?thesis
  proof (cases "pinCnt (bufDescTable s ! fr) = 0")
    case True
    with Some run have "s' = s" by (simp add: unPinPage_def ht_lookup_def)
    with ia rd show ?thesis by simp
  next
    case False
    let ?d = "(bufDescTable s ! fr)\<lparr>pinCnt := pinCnt (bufDescTable s ! fr) - 1\<rparr>"
    from Some False run hit
    have s': "s' = s\<lparr>bufDescTable := (bufDescTable s)[fr := if b then ?d\<lparr>dirty := True\<rparr> else ?d]\<rparr>"
      by (cases b) (simp_all add: unPinPage_def ht_lookup_def Let_def)
    have "index_agrees s'" unfolding s' using ia hit by (intro index_agrees_update_valid) simp_all
    moreover have "resident_on_disk s'" using rd by (simp add: s' resident_on_disk_def)
    ultimately show ?thesis ..
  qed
qed

lemma allocPage_inv:
  assumes ia: "index_agrees s" and rd: "resident_on_disk s" and fresh: "files s (f, np) = None"
    and run: "allocPage s f np = Some (y, s')"
  shows "index_agrees s' \<and> resident_on_disk s'"
proof -
  let ?pg = "\<lparr>page_number = np, payload = []\<rparr>"
  let ?s1 = "s\<lparr>files := (files s)((f, np) \<mapsto> ?pg), iolog := iolog s @ [AllocatePage f np]\<rparr>"
  have fa: "file_allocatePage s f np = (?pg, ?s1)" by (simp add: file_allocatePage_def Let_def)
  have ia1: "index_agrees ?s1" using ia by (rule index_agrees_cong) simp_all
  have rd1: "resident_on_disk ?s1" using rd by (simp add: resident_on_disk_def)
  from resident_on_diskD [OF rd, of "(f, np)"] fresh have miss: "hashTable s (f, np) = None"
    by (cases "hashTable s (f, np)") auto
  from run fa obtain x s2 where al: "allocBuf ?s1 = Some (x, s2)"
    by (cases "allocBuf ?s1") (auto simp: allocPage_def)
  note ag = allocBuf_agrees [OF ia1 al]
  have rd2: "resident_on_disk s2" using ia1 rd1 al by (rule allocBuf_resident)
  show ?thesis
  proof (cases x)
    case (Inl e)
    with run fa al have "s' = s2" by (simp add: allocPage_def)
    with ag(1) rd2 show ?thesis by simp
  next
    case (Inr fid)
    from ag(2) [OF Inr] ag(6) have fid: "fid < numBufs s2" "\<not> valid (bufDescTable s2 ! fid)" by simp_all
    let ?s3 = "s2\<lparr>iolog := iolog s2 @ [ReadPage f np]\<rparr>"
    have ia3: "index_agrees ?s3" using ag(1) by (rule index_agrees_iolog)
    have rd3: "resident_on_disk ?s3" using rd2 by (simp add: resident_on_disk_def)
    from ag(5) [of "(f, np)"] obtain pg where pg: "files s2 (f, np) = Some pg"
      by (cases "files s2 (f, np)") auto
    from ag(4) [of "(f, np)"] miss have miss3: "hashTable ?s3 (f, np) = None"
      by (cases "hashTable s2 (f, np)") auto
    let ?d = "BufDesc_Set (bufDescTable s2 ! fid) f np"
    from run fa al Inr pg
    have s': "s' = ?s3\<lparr>bufPool := (bufPool ?s3)[fid := pg],
                hashTable := (hashTable ?s3)((f, np) \<mapsto> fid),
                bufDescTable := (bufDescTable ?s3)[fid := ?d]\<rparr>"
      by (simp add: allocPage_def file_readPage_def ht_insert_def Let_def)
    have "index_agrees s'" unfolding s' using ia3 _ _ miss3
      by (rule index_agrees_install) (simp_all add: fid BufDesc_Set_def)
    moreover have "resident_on_disk s'"
    proof (rule resident_on_diskI [OF rd3])
      fix k assume "hashTable s' k \<noteq> None"
      then show "hashTable ?s3 k \<noteq> None \<or> files s' k \<noteq> None"
        using pg by (auto simp: s' split: if_splits)
    next
      fix k assume "files ?s3 k \<noteq> None"
      then show "files s' k \<noteq> None" by (simp add: s')
    qed
    ultimately show ?thesis ..
  qed
qed

lemma file_deletePage_inv:
  assumes "index_agrees s" and "resident_on_disk s" and "hashTable s (f, p) = None"
    and "file_deletePage s f p = (x, s')"
  shows "index_agrees s' \<and> resident_on_disk s'"
proof -
  from assms(4) have e: "numBufs s' = numBufs s" "bufDescTable s' = bufDescTable s"
    "length (bufPool s') = length (bufPool s)" "hashTable s' = hashTable s"
    by (auto simp: file_deletePage_def split: option.splits)
  have f: "files s' k = files s k" if "k \<noteq> (f, p)" for k
    using assms(4) that by (cases "files s (f, p)") (auto simp: file_deletePage_def)
  have "index_agrees s'" using assms(1) e by (rule index_agrees_cong)
  moreover have "resident_on_disk s'"
    unfolding resident_on_disk_def
  proof (intro allI impI)
    fix k assume k: "hashTable s' k \<noteq> None"
    with e(4) assms(3) have "k \<noteq> (f, p)" by auto
    from f [OF this] resident_on_diskD [OF assms(2), of k] k e(4)
    show "files s' k \<noteq> None" by simp
  qed
  ultimately show ?thesis ..
qed

lemma disposePage_inv:
  assumes ia: "index_agrees s" and rd: "resident_on_disk s" and run: "disposePage s f p = (x, s')"
  shows "index_agrees s' \<and> resident_on_disk s'"
proof (cases "hashTable s (f, p)")
  case None
  with run have "file_deletePage s f p = (x, s')" by (simp add: disposePage_def ht_lookup_def)
  with ia rd None show ?thesis by (rule file_deletePage_inv)
next
  case (Some fr)
  let ?t = "s\<lparr>bufDescTable := (bufDescTable s)[fr := BufDesc_Clear (bufDescTable s ! fr)],
              hashTable := (hashTable s)((f, p) := None)\<rparr>"
  from Some run have d: "file_deletePage ?t f p = (x, s')"
    by (simp add: disposePage_def ht_lookup_def ht_remove_def Let_def)
  have "index_agrees (s\<lparr>hashTable := (hashTable s)((f, p) := None),
              bufDescTable := (bufDescTable s)[fr := BufDesc_Clear (bufDescTable s ! fr)]\<rparr>)"
    using ia Some by (rule index_agrees_clear)
  then have "index_agrees ?t" by (rule index_agrees_cong) simp_all
  moreover have "resident_on_disk ?t" using rd by (simp add: resident_on_disk_def)
  moreover have "hashTable ?t (f, p) = None" by simp
  ultimately show ?thesis using d by (rule file_deletePage_inv)
qed

lemma resident_on_disk_evicted:
  assumes "resident_on_disk s"
  shows "resident_on_disk (evicted s a f)"
  using assms by (auto simp: resident_on_disk_def evicted_def Let_def)

lemma flushFrames_inv:
  assumes "index_agrees s" and "resident_on_disk s" and "\<forall>k\<in>set ks. k < numBufs s"
    and "flushFrames f ks s = (x, s')"
  shows "index_agrees s' \<and> resident_on_disk s'"
  using assms
proof (induction ks arbitrary: s)
  case Nil
  then show ?case by simp
next
  case (Cons a ks)
  from Cons.prems(3) have a: "a < numBufs s" by simp
  show ?case
  proof (cases "owned s f a")
    case False
    with Cons.prems(4) have "flushFrames f ks s = (x, s')"
      by (simp add: flushFrames_skip del: flushFrames.simps)
    with Cons.IH [of s] Cons.prems show ?thesis by simp
  next
    case True
    show ?thesis
    proof (cases "blocks_flush s f a")
      case b: True
      with Cons.prems(4) have "s' = s" by (auto simp: flushFrames_stop simp del: flushFrames.simps)
      with Cons.prems show ?thesis by simp
    next
      case nb: False
      with True have v: "valid (bufDescTable s ! a)" and fp: "file_ptr (bufDescTable s ! a) = Some f"
        by (simp_all add: blocks_flush_def owned_def)
      from index_agrees_valid [OF Cons.prems(1) a v] fp
      have hit: "hashTable s (f, pageNo (bufDescTable s ! a)) = Some a" by simp
      from Cons.prems(1) a have al: "a < length (bufDescTable s)"
        by (simp add: index_agrees_def wf_pool_def)
      from Cons.prems(4) flushFrames_flush [OF True nb al hit, of ks]
      have run: "flushFrames f ks (evicted s a f) = (x, s')" by (simp del: flushFrames.simps)
      have 1: "index_agrees (evicted s a f)" using Cons.prems(1) a v fp by (rule index_agrees_evicted)
      have 2: "resident_on_disk (evicted s a f)" using Cons.prems(2) by (rule resident_on_disk_evicted)
      have 3: "\<forall>k\<in>set ks. k < numBufs (evicted s a f)"
        using Cons.prems(3) by (simp add: evicted_fields(1))
      from Cons.IH [OF 1 2 3 run] show ?thesis .
    qed
  qed
qed

lemma flushFile_inv:
  assumes "index_agrees s" and "resident_on_disk s" and "flushFile s f = (x, s')"
  shows "index_agrees s' \<and> resident_on_disk s'"
  using assms(1,2) _ assms(3) [unfolded flushFile_def] by (rule flushFrames_inv) simp

lemma reachable_inv: "reachable s \<Longrightarrow> index_agrees s \<and> resident_on_disk s"
proof (induction rule: reachable.induct)
  case (reach_init bufs d)
  have "resident_on_disk (BufMgr_init bufs d)" by (simp add: resident_on_disk_def BufMgr_init_def)
  with index_agrees_init [OF reach_init] show ?case ..
next
  case (reach_readPage s f p r s')
  from reach_readPage(3) have "index_agrees s" "resident_on_disk s" by simp_all
  from readPage_inv [OF this reach_readPage(2)] show ?case .
next
  case (reach_unPinPage s f p b x s')
  from reach_unPinPage(3) have "index_agrees s" "resident_on_disk s" by simp_all
  from unPinPage_inv [OF this reach_unPinPage(2)] show ?case .
next
  case (reach_allocPage s f np y s')
  from reach_allocPage(4) have "index_agrees s" "resident_on_disk s" by simp_all
  from allocPage_inv [OF this reach_allocPage(2,3)] show ?case .
next
  case (reach_disposePage s f p x s')
  from reach_disposePage(3) have "index_agrees s" "resident_on_disk s" by simp_all
  from disposePage_inv [OF this reach_disposePage(2)] show ?case .
next
  case (reach_flushFile s f x s')
  from reach_flushFile(3) have "index_agrees s" "resident_on_disk s" by simp_all
  from flushFile_inv [OF this reach_flushFile(2)] show ?case .
qed


lemma allocBuf_eval: "wf_pool s \<Longrightarrow> allocBuf s = allocBuf_sweeps 2 s"
  using allocBuf_two_sweeps [of s] by simp

subsection \<open>Exhaustion\<close>

lemma allocBuf_selected_not_exceeded:
  assumes "fst (sweep (numBufs s) s) \<noteq> Inr None"
  shows "allocBuf s \<noteq> Some (Inl BufferExceededException, s')"
proof -
  obtain x t where sw: "sweep (numBufs s) s = (x, t)" by (cases "sweep (numBufs s) s")
  show ?thesis
  proof (cases x)
    case (Inl e)
    with sw have "sweep (numBufs s) s = (Inl e, t)" by simp
    from sweep_Inl [OF this] have "e = NullFileDereference" by (auto dest: evictFrame_Inl)
    moreover from sw Inl have "allocBuf s = Some (Inl e, t)" by (subst allocBuf.simps) simp
    ultimately show ?thesis by simp
  next
    case (Inr opt)
    with assms sw obtain v where "opt = Some v" by (cases opt) auto
    with sw Inr have "allocBuf s = Some (Inr v, t)" by (subst allocBuf.simps) simp
    then show ?thesis by simp
  qed
qed

lemma allocBuf_restart:
  assumes "sweep (numBufs s) s = (Inr None, t)"
  shows "allocBuf s =
    (if somePinCntZero (bufDescTable s) (numBufs s) then allocBuf t
     else Some (Inl BufferExceededException, t))"
proof -
  have rel: "clock_rel s t" using assms by (rule sweep_None)
  from somePinCntZero_clock_rel [OF rel] assms show ?thesis
    by (subst allocBuf.simps) simp
qed

lemma readPage_miss:
  assumes "hashTable s (f, p) = None" and "files s (f, p) = Some pg"
    and "allocBuf (s\<lparr>iolog := iolog s @ [ReadPage f p]\<rparr>) = Some (x, s2)"
  shows "\<exists>s3. readPage s f p = Some (x, s3) \<and> (\<forall>e. x = Inl e \<longrightarrow> s3 = s2)"
  using assms
  by (cases x) (simp_all add: readPage_def ht_lookup_def file_readPage_def Let_def)

lemma unPinPage_release:
  assumes ia: "index_agrees s" and hit: "hashTable s (g, q) = Some fr"
    and pin: "pinCnt (bufDescTable s ! fr) \<noteq> 0"
  shows "\<exists>s'. unPinPage s g q b = (None, s') \<and> index_agrees s' \<and> hashTable s' = hashTable s \<and>
           files s' = files s \<and> numBufs s' = numBufs s \<and> fr < numBufs s \<and>
           pinCnt (bufDescTable s' ! fr) = pinCnt (bufDescTable s ! fr) - 1"
proof -
  note h = index_agrees_hit [OF ia hit]
  let ?d = "(bufDescTable s ! fr)\<lparr>pinCnt := pinCnt (bufDescTable s ! fr) - 1\<rparr>"
  let ?s' = "s\<lparr>bufDescTable := (bufDescTable s)[fr := if b then ?d\<lparr>dirty := True\<rparr> else ?d]\<rparr>"
  from hit pin h have "unPinPage s g q b = (None, ?s')"
    by (cases b) (simp_all add: unPinPage_def ht_lookup_def Let_def)
  moreover have "index_agrees ?s'" using ia h by (intro index_agrees_update_valid) simp_all
  moreover have "pinCnt (bufDescTable ?s' ! fr) = pinCnt (bufDescTable s ! fr) - 1"
    using h by simp
  ultimately show ?thesis using h by simp
qed

lemma readPage_all_pinned:
  assumes ia: "index_agrees s" and pins: "\<forall>i<numBufs s. 0 < pinCnt (bufDescTable s ! i)"
    and miss: "hashTable s (f, p) = None" and ex: "files s (f, p) = Some pg"
  shows "\<exists>s1. readPage s f p = Some (Inl BufferExceededException, s1) \<and> index_agrees s1 \<and>
           hashTable s1 = hashTable s \<and> files s1 = files s \<and> numBufs s1 = numBufs s"
proof -
  let ?t = "s\<lparr>iolog := iolog s @ [ReadPage f p]\<rparr>"
  have iat: "index_agrees ?t" using ia by (rule index_agrees_iolog)
  from allocBuf_two_sweeps [OF index_agrees_wf [OF iat]] obtain x s2 where
    al: "allocBuf ?t = Some (x, s2)" by (cases "allocBuf ?t") auto
  from iat al have "x = Inl BufferExceededException \<and> clock_rel ?t s2"
  proof (cases rule: allocBuf_cases)
    case (exceeded s1)
    then show ?thesis by simp
  next
    case (free s1 v)
    from free(4,5) have "v < numBufs s" "\<not> valid (bufDescTable s ! v)" by simp_all
    from cleared_fields(2) [OF index_agrees_invalid [OF ia this]] pins this(1) show ?thesis by auto
  next
    case (evict s1 v g)
    with pins show ?thesis by auto
  qed
  then have x: "x = Inl BufferExceededException" and rel: "clock_rel ?t s2" by simp_all
  from readPage_miss [OF miss ex al] x have "readPage s f p = Some (Inl BufferExceededException, s2)"
    by auto
  moreover have "index_agrees s2" using rel iat by (rule index_agrees_clock_rel)
  moreover from rel have "hashTable s2 = hashTable s" "files s2 = files s" "numBufs s2 = numBufs s"
    by (simp_all add: clock_rel_def)
  ultimately show ?thesis by blast
qed

lemma readPage_some_unpinned:
  assumes ia: "index_agrees s" and z: "fr < numBufs s" "pinCnt (bufDescTable s ! fr) = 0"
    and miss: "hashTable s (f, p) = None" and ex: "files s (f, p) = Some pg"
  shows "\<exists>v s3. readPage s f p = Some (Inr v, s3)"
proof -
  let ?t = "s\<lparr>iolog := iolog s @ [ReadPage f p]\<rparr>"
  have iat: "index_agrees ?t" using ia by (rule index_agrees_iolog)
  from allocBuf_two_sweeps [OF index_agrees_wf [OF iat]] obtain x s2 where
    al: "allocBuf ?t = Some (x, s2)" by (cases "allocBuf ?t") auto
  from iat al have "\<exists>v. x = Inr v"
  proof (cases rule: allocBuf_cases)
    case (exceeded s1)
    with z show ?thesis by (auto simp: somePinCntZero_iff)
  qed simp_all
  with readPage_miss [OF miss ex al] show ?thesis by auto
qed

section \<open>The claims\<close>

text \<open>
  C1. A valid frame with a positive pin count is never the victim of \<^verbatim>\<open>allocBuf\<close>. In
  a pool whose index agrees with its descriptors (every reachable pool does), whatever
  \<^verbatim>\<open>allocBuf\<close> returns or throws, such a frame \<open>i\<close> is not the frame returned, its
  descriptor changes in the reference bit at most (it is not cleared), its entry stays in
  the hash table, and the only page that may have been written back is the one of the
  returned frame, which is another frame.
\<close>

theorem allocBuf_spares_pinned:
  assumes "index_agrees s" and "allocBuf s = Some (r, s')"
    and "i < numBufs s" and "valid (bufDescTable s ! i)" and "0 < pinCnt (bufDescTable s ! i)"
  shows "r \<noteq> Inr i \<and>
    (bufDescTable s' ! i)\<lparr>refbit := False\<rparr> = (bufDescTable s ! i)\<lparr>refbit := False\<rparr> \<and>
    (\<exists>f. file_ptr (bufDescTable s ! i) = Some f \<and> hashTable s' (f, pageNo (bufDescTable s ! i)) = Some i) \<and>
    bufPool s' = bufPool s \<and>
    (iolog s' = iolog s \<or>
     (\<exists>v f. r = Inr v \<and> v \<noteq> i \<and> file_ptr (bufDescTable s ! v) = Some f \<and>
            iolog s' = iolog s @ [WritePage f (bufPool s ! v)]))"
proof -
  from index_agrees_valid [OF assms(1,3,4)] obtain g where
    g: "file_ptr (bufDescTable s ! i) = Some g" "hashTable s (g, pageNo (bufDescTable s ! i)) = Some i"
    by blast
  from assms(1) have len: "length (bufDescTable s) = numBufs s"
    by (simp add: index_agrees_def wf_pool_def)
  from assms(1,2) show ?thesis
  proof (cases rule: allocBuf_cases)
    case (exceeded s1)
    with g show ?thesis by (simp add: clock_rel_def)
  next
    case (free s1 v)
    with assms(4) have "v \<noteq> i" by auto
    with free g show ?thesis by (simp add: clock_rel_def)
  next
    case (evict s1 v f)
    with assms(5) have ne: "v \<noteq> i" by auto
    from evict(1) have eqs: "numBufs s1 = numBufs s" "hashTable s1 = hashTable s"
      "bufPool s1 = bufPool s" "iolog s1 = iolog s" "length (bufDescTable s1) = length (bufDescTable s)"
      and d: "(bufDescTable s1 ! i)\<lparr>refbit := False\<rparr> = (bufDescTable s ! i)\<lparr>refbit := False\<rparr>"
      by (simp_all add: clock_rel_def)
    note fl = clock_rel_fields [OF evict(1)]
    have 1: "bufDescTable s' ! i = bufDescTable s1 ! i"
      using ne by (simp add: evict(3) evicted_def Let_def)
    have key: "(f, pageNo (bufDescTable s ! v)) \<noteq> (g, pageNo (bufDescTable s ! i))"
      using g(2) evict(9) ne by auto
    have 2: "hashTable s' (g, pageNo (bufDescTable s ! i)) = Some i"
      using key g(2) eqs fl(5) [of v] by (auto simp: evict(3) evicted_def Let_def)
    have 3: "bufPool s' = bufPool s" using eqs by (simp add: evict(3) evicted_def Let_def)
    have 4: "iolog s' = iolog s \<or> iolog s' = iolog s @ [WritePage f (bufPool s ! v)]"
      using eqs by (simp add: evict(3) evicted_def Let_def)
    from ne 1 d 2 3 4 g evict(2,8) show ?thesis by auto
  qed
qed

theorem allocBuf_spares_pinned_witness:
  "\<exists>r s'. allocBuf pool_ref = Some (r, s') \<and> index_agrees pool_ref \<and>
     valid (bufDescTable pool_ref ! 1) \<and> 0 < pinCnt (bufDescTable pool_ref ! 1) \<and>
     r = Inr 0 \<and> valid (bufDescTable s' ! 1) \<and> pinCnt (bufDescTable s' ! 1) = 1 \<and>
     hashTable s' (0, 2) = Some 1 \<and> iolog s' = [WritePage 0 (page_of 1 [11])]"
proof -
  have ia: "index_agrees pool_ref" unfolding pool_ref_def by (rule index_agrees_pool_with)
  from allocBuf_two_sweeps [OF index_agrees_wf [OF ia]]
  have eq: "allocBuf pool_ref = allocBuf_sweeps 2 pool_ref" by simp
  obtain r s' where a: "allocBuf pool_ref = Some (r, s')"
    using allocBuf_two_sweeps [OF index_agrees_wf [OF ia]] by (cases "allocBuf pool_ref") auto
  have i: "1 < numBufs pool_ref" "valid (bufDescTable pool_ref ! 1)" "0 < pinCnt (bufDescTable pool_ref ! 1)"
    by (simp_all add: pool_ref_def pool_with_def)
  have r: "r = Inr 0" and l: "iolog s' = [WritePage 0 (page_of 1 [11])]"
    using a unfolding eq by (auto simp: pool_ref_def pool_with_def eval_simps)
  from allocBuf_spares_pinned [OF ia a i]
  have "(bufDescTable s' ! 1)\<lparr>refbit := False\<rparr> = (bufDescTable pool_ref ! 1)\<lparr>refbit := False\<rparr>"
    and h: "\<exists>f. file_ptr (bufDescTable pool_ref ! 1) = Some f \<and>
              hashTable s' (f, pageNo (bufDescTable pool_ref ! 1)) = Some 1"
    by simp_all
  from arg_cong [OF this(1), of valid] arg_cong [OF this(1), of pinCnt]
  have "valid (bufDescTable s' ! 1)" "pinCnt (bufDescTable s' ! 1) = 1"
    by (simp_all add: pool_ref_def pool_with_def)
  moreover from h have "hashTable s' (0, 2) = Some 1" by (simp add: pool_ref_def pool_with_def)
  ultimately show ?thesis using a ia i r l by blast
qed

text \<open>
  C2. The frame the sweep reaches is \<open>h\<close>, the one after the clock hand; \<open>d\<close> is its
  descriptor. If \<open>d\<close> is not valid the loop returns \<open>h\<close> at once, and only the clock
  hand has changed: nothing is written, the index is as before. If \<open>d\<close> is valid,
  unreferenced and unpinned, the loop returns \<open>h\<close> after evicting it: if \<open>d\<close> is dirty
  the page in the frame is written to the file of \<open>d\<close>, once, the entry of the page is
  removed from the hash table and the descriptor is cleared, so that it is neither dirty
  nor valid. This is what \<^verbatim>\<open>allocBuf\<close> returns when \<open>h\<close> is the first frame it
  examines. The pool is one whose index agrees with its descriptors.
\<close>

theorem sweep_reaches_frame:
  assumes "index_agrees s" and "0 < numBufs s"
    and "h = clockHand (advanceClock s)" and "d = bufDescTable s ! h"
  shows
    "(\<not> valid d \<longrightarrow>
        sweep (Suc n) s = (Inr (Some h), s\<lparr>clockHand := h\<rparr>) \<and>
        (numBufs s = Suc n \<longrightarrow> allocBuf s = Some (Inr h, s\<lparr>clockHand := h\<rparr>))) \<and>
     (valid d \<and> \<not> refbit d \<and> pinCnt d = 0 \<longrightarrow>
        (\<exists>f s'. file_ptr d = Some f \<and>
           s' = s\<lparr>clockHand := h,
                  files := (if dirty d then (files s)((f, page_number (bufPool s ! h)) \<mapsto> bufPool s ! h)
                            else files s),
                  iolog := iolog s @ (if dirty d then [WritePage f (bufPool s ! h)] else []),
                  hashTable := (hashTable s)((f, pageNo d) := None),
                  bufDescTable := (bufDescTable s)[h := BufDesc_Clear d]\<rparr> \<and>
           sweep (Suc n) s = (Inr (Some h), s') \<and>
           (numBufs s = Suc n \<longrightarrow> allocBuf s = Some (Inr h, s')) \<and>
           hashTable s (f, pageNo d) = Some h \<and> hashTable s' (f, pageNo d) = None \<and>
           \<not> dirty (bufDescTable s' ! h) \<and> \<not> valid (bufDescTable s' ! h)))"
proof (intro conjI impI)
  assume nv: "\<not> valid d"
  with assms(3,4) have "\<not> valid (bufDescTable s ! clockHand (advanceClock s))" by simp
  then have "sweep (Suc n) s = (Inr (Some (clockHand (advanceClock s))), advanceClock s)"
    by (rule sweep_invalid)
  with advanceClock_eq [of s] assms(3)
  show 1: "sweep (Suc n) s = (Inr (Some h), s\<lparr>clockHand := h\<rparr>)" by (simp del: sweep.simps)
  show "allocBuf s = Some (Inr h, s\<lparr>clockHand := h\<rparr>)" if "numBufs s = Suc n"
    using 1 that by (simp add: allocBuf_first_sweep del: sweep.simps)
next
  assume v: "valid d \<and> \<not> refbit d \<and> pinCnt d = 0"
  let ?s1 = "advanceClock s"
  have rel: "clock_rel s ?s1" by (rule clock_rel_advanceClock)
  have ia1: "index_agrees ?s1" using rel assms(1) by (rule index_agrees_clock_rel)
  have h1: "h < numBufs ?s1"
    using assms(2,3) by (simp add: advanceClock_fields clockHand_advanceClock_less)
  from assms(1) h1 have hl: "h < length (bufDescTable s)"
    by (simp add: index_agrees_def wf_pool_def advanceClock_fields)
  have v1: "valid (bufDescTable ?s1 ! h)" using v assms(4) by (simp add: advanceClock_fields)
  from evictFrame_agrees [OF ia1 h1 v1] obtain f where
    f: "file_ptr d = Some f" "evictFrame ?s1 h = Inr (evicted ?s1 h f)"
    using assms(4) by (auto simp: advanceClock_fields)
  from index_agrees_valid [OF ia1 h1 v1] f(1) assms(4)
  have hit: "hashTable s (f, pageNo d) = Some h" by (simp add: advanceClock_fields)
  let ?s' = "s\<lparr>clockHand := h,
                  files := (if dirty d then (files s)((f, page_number (bufPool s ! h)) \<mapsto> bufPool s ! h)
                            else files s),
                  iolog := iolog s @ (if dirty d then [WritePage f (bufPool s ! h)] else []),
                  hashTable := (hashTable s)((f, pageNo d) := None),
                  bufDescTable := (bufDescTable s)[h := BufDesc_Clear d]\<rparr>"
  have ac: "advanceClock s = s\<lparr>clockHand := h\<rparr>"
    using advanceClock_eq [of s] assms(3) by simp
  have e: "evicted ?s1 h f = ?s'"
    by (simp add: evicted_def Let_def ac assms(4))
  have "sweep (Suc n) s =
    (case evictFrame ?s1 (clockHand ?s1) of
       Inl e \<Rightarrow> (Inl e, ?s1)
     | Inr s2 \<Rightarrow> (Inr (Some (clockHand ?s1)), s2))"
    using v assms(3,4) by (intro sweep_victim) simp_all
  then have sw: "sweep (Suc n) s = (Inr (Some h), ?s')"
    using assms(3) f(2) e by (simp del: sweep.simps)
  have al: "allocBuf s = Some (Inr h, ?s')" if "numBufs s = Suc n"
    using sw that by (simp add: allocBuf_first_sweep del: sweep.simps)
  have "\<not> dirty (bufDescTable ?s' ! h)" "\<not> valid (bufDescTable ?s' ! h)" "hashTable ?s' (f, pageNo d) = None"
    using hl by (simp_all add: BufDesc_Clear_def)
  with f(1) sw al hit
  show "\<exists>f s'. file_ptr d = Some f \<and>
           s' = s\<lparr>clockHand := h,
                  files := (if dirty d then (files s)((f, page_number (bufPool s ! h)) \<mapsto> bufPool s ! h)
                            else files s),
                  iolog := iolog s @ (if dirty d then [WritePage f (bufPool s ! h)] else []),
                  hashTable := (hashTable s)((f, pageNo d) := None),
                  bufDescTable := (bufDescTable s)[h := BufDesc_Clear d]\<rparr> \<and>
           sweep (Suc n) s = (Inr (Some h), s') \<and>
           (numBufs s = Suc n \<longrightarrow> allocBuf s = Some (Inr h, s')) \<and>
           hashTable s (f, pageNo d) = Some h \<and> hashTable s' (f, pageNo d) = None \<and>
           \<not> dirty (bufDescTable s' ! h) \<and> \<not> valid (bufDescTable s' ! h)"
    by blast
qed


theorem sweep_reaches_frame_witness:
  "index_agrees pool_unref \<and> 0 < numBufs pool_unref \<and> clockHand (advanceClock pool_unref) = 0 \<and>
   valid (bufDescTable pool_unref ! 0) \<and> \<not> refbit (bufDescTable pool_unref ! 0) \<and>
   pinCnt (bufDescTable pool_unref ! 0) = 0 \<and> dirty (bufDescTable pool_unref ! 0) \<and>
   (\<exists>s'. allocBuf pool_unref = Some (Inr 0, s') \<and> iolog s' = [WritePage 0 (page_of 1 [11])] \<and>
      files s' (0, 1) = Some (page_of 1 [11]) \<and> hashTable s' (0, 1) = None \<and>
      hashTable s' (0, 2) = Some 1 \<and> \<not> valid (bufDescTable s' ! 0) \<and> \<not> dirty (bufDescTable s' ! 0)) \<and>
   index_agrees (BufMgr_init 2 disk3) \<and> \<not> valid (bufDescTable (BufMgr_init 2 disk3) ! 0) \<and>
   allocBuf (BufMgr_init 2 disk3) = Some (Inr 0, (BufMgr_init 2 disk3)\<lparr>clockHand := 0\<rparr>)"
proof -
  have ia: "index_agrees pool_unref" unfolding pool_unref_def by (rule index_agrees_pool_with)
  have pos: "0 < numBufs pool_unref" by (simp add: pool_unref_def pool_with_def)
  have h: "0 = clockHand (advanceClock pool_unref)"
    by (simp add: pool_unref_def pool_with_def advanceClock_def)
  have d: "valid (bufDescTable pool_unref ! 0)" "\<not> refbit (bufDescTable pool_unref ! 0)"
    "pinCnt (bufDescTable pool_unref ! 0) = 0" "dirty (bufDescTable pool_unref ! 0)"
    "numBufs pool_unref = Suc 1"
    by (simp_all add: pool_unref_def pool_with_def)
  from sweep_reaches_frame [OF ia pos h refl, of 1] d
  obtain f s' where s': "file_ptr (bufDescTable pool_unref ! 0) = Some f"
    "s' = pool_unref\<lparr>clockHand := 0,
           files := (files pool_unref)((f, page_number (bufPool pool_unref ! 0)) \<mapsto> bufPool pool_unref ! 0),
           iolog := iolog pool_unref @ [WritePage f (bufPool pool_unref ! 0)],
           hashTable := (hashTable pool_unref)((f, pageNo (bufDescTable pool_unref ! 0)) := None),
           bufDescTable := (bufDescTable pool_unref)[0 := BufDesc_Clear (bufDescTable pool_unref ! 0)]\<rparr>"
    "allocBuf pool_unref = Some (Inr 0, s')"
    by auto
  from s'(1) have f: "f = 0" by (simp add: pool_unref_def pool_with_def)
  have 1: "\<exists>s'. allocBuf pool_unref = Some (Inr 0, s') \<and> iolog s' = [WritePage 0 (page_of 1 [11])] \<and>
      files s' (0, 1) = Some (page_of 1 [11]) \<and> hashTable s' (0, 1) = None \<and>
      hashTable s' (0, 2) = Some 1 \<and> \<not> valid (bufDescTable s' ! 0) \<and> \<not> dirty (bufDescTable s' ! 0)"
    using s'(3) unfolding s'(2) f
    by (simp add: pool_unref_def pool_with_def page_of_def BufDesc_Clear_def)
  have ia2: "index_agrees (BufMgr_init 2 disk3)" by (rule index_agrees_init) simp
  have pos2: "0 < numBufs (BufMgr_init 2 disk3)" by (simp add: BufMgr_init_def)
  have h2: "0 = clockHand (advanceClock (BufMgr_init 2 disk3))"
    by (simp add: BufMgr_init_def advanceClock_def)
  have d2: "\<not> valid (bufDescTable (BufMgr_init 2 disk3) ! 0)" "numBufs (BufMgr_init 2 disk3) = Suc 1"
    by (simp_all add: BufMgr_init_def upt_rec)
  from sweep_reaches_frame [OF ia2 pos2 h2 refl, of 1] d2
  have 2: "allocBuf (BufMgr_init 2 disk3) = Some (Inr 0, (BufMgr_init 2 disk3)\<lparr>clockHand := 0\<rparr>)"
    by simp
  from ia pos h d 1 ia2 d2 2 show ?thesis by simp
qed

text \<open>
  C3, as stated, fails in its last part: one frame, on which page 1 is fetched twice, is
  pinned; the fetch of page 2 then fails with \<^verbatim>\<open>BufferExceededException\<close>; after one
  release of page 1 the frame is still pinned, and the fetch of page 2 fails again.
\<close>

theorem exhaustion_retry_counterexample:
  "readPage (BufMgr_init 1 disk3) 0 1 = Some (Inr 0, pool_one 1 True [ReadPage 0 1]) \<and>
   readPage (pool_one 1 True [ReadPage 0 1]) 0 1 = Some (Inr 0, pool_one 2 True [ReadPage 0 1]) \<and>
   numBufs (pool_one 2 True [ReadPage 0 1]) = 1 \<and>
   0 < pinCnt (bufDescTable (pool_one 2 True [ReadPage 0 1]) ! 0) \<and>
   hashTable (pool_one 2 True [ReadPage 0 1]) (0, 2) = None \<and>
   readPage (pool_one 2 True [ReadPage 0 1]) 0 2 =
     Some (Inl BufferExceededException, pool_one 2 False [ReadPage 0 1, ReadPage 0 2]) \<and>
   unPinPage (pool_one 2 False [ReadPage 0 1, ReadPage 0 2]) 0 1 False =
     (None, pool_one 1 False [ReadPage 0 1, ReadPage 0 2]) \<and>
   readPage (pool_one 1 False [ReadPage 0 1, ReadPage 0 2]) 0 2 =
     Some (Inl BufferExceededException, pool_one 1 False [ReadPage 0 1, ReadPage 0 2, ReadPage 0 2])"
proof -
  have 1: "readPage (BufMgr_init 1 disk3) 0 1 = Some (Inr 0, pool_one 1 True [ReadPage 0 1])"
    by (simp add: readPage_def BufMgr_init_def disk3_def allocBuf_eval wf_pool_def eval_simps
        pool_one_def page_of_def)
  have 2: "readPage (pool_one 1 True [ReadPage 0 1]) 0 1 = Some (Inr 0, pool_one 2 True [ReadPage 0 1])"
    by (simp add: readPage_def pool_one_def eval_simps)
  have 3: "numBufs (pool_one 2 True [ReadPage 0 1]) = 1"
    "0 < pinCnt (bufDescTable (pool_one 2 True [ReadPage 0 1]) ! 0)"
    "hashTable (pool_one 2 True [ReadPage 0 1]) (0, 2) = None"
    by (simp_all add: pool_one_def)
  have 4: "readPage (pool_one 2 True [ReadPage 0 1]) 0 2 =
      Some (Inl BufferExceededException, pool_one 2 False [ReadPage 0 1, ReadPage 0 2])"
    by (simp add: readPage_def disk3_def allocBuf_eval wf_pool_def eval_simps pool_one_def)
  have 5: "unPinPage (pool_one 2 False [ReadPage 0 1, ReadPage 0 2]) 0 1 False =
      (None, pool_one 1 False [ReadPage 0 1, ReadPage 0 2])"
    by (simp add: unPinPage_def pool_one_def eval_simps)
  have 6: "readPage (pool_one 1 False [ReadPage 0 1, ReadPage 0 2]) 0 2 =
      Some (Inl BufferExceededException, pool_one 1 False [ReadPage 0 1, ReadPage 0 2, ReadPage 0 2])"
    by (simp add: readPage_def disk3_def allocBuf_eval wf_pool_def eval_simps pool_one_def)
  from 1 2 3 4 5 6 show ?thesis by (intro conjI)
qed

text \<open>
  C3, amended. \<^verbatim>\<open>allocBuf\<close> throws \<^verbatim>\<open>BufferExceededException\<close> exactly when the
  sweep over all frames chooses none and every frame has a pin count other than zero; if
  the sweep chooses none and some frame has pin count zero, \<^verbatim>\<open>allocBuf\<close> goes on with
  another sweep and does not throw it. So, in a pool whose index agrees with its
  descriptors and whose frames are all pinned, \<^verbatim>\<open>readPage\<close> of a page of the file that
  is not in the pool fails with \<^verbatim>\<open>BufferExceededException\<close>; and once a page whose
  frame has pin count 1 is released, so that the frame is unpinned, the same
  \<^verbatim>\<open>readPage\<close> returns a frame.
\<close>

theorem allocBuf_exhaustion:
  assumes "wf_pool s"
  shows
    "((\<exists>s'. allocBuf s = Some (Inl BufferExceededException, s')) \<longleftrightarrow>
        fst (sweep (numBufs s) s) = Inr None \<and> (\<forall>i<numBufs s. pinCnt (bufDescTable s ! i) \<noteq> 0)) \<and>
     (fst (sweep (numBufs s) s) = Inr None \<and> (\<exists>i<numBufs s. pinCnt (bufDescTable s ! i) = 0) \<longrightarrow>
        allocBuf s = allocBuf (snd (sweep (numBufs s) s)) \<and>
        (\<forall>s'. allocBuf s \<noteq> Some (Inl BufferExceededException, s'))) \<and>
     (index_agrees s \<and> (\<forall>i<numBufs s. 0 < pinCnt (bufDescTable s ! i)) \<and>
      hashTable s (f, p) = None \<and> files s (f, p) \<noteq> None \<longrightarrow>
        (\<exists>s1. readPage s f p = Some (Inl BufferExceededException, s1) \<and>
           (\<forall>g q b fr. hashTable s1 (g, q) = Some fr \<and> pinCnt (bufDescTable s1 ! fr) = 1 \<longrightarrow>
              (\<exists>s2 v s3. unPinPage s1 g q b = (None, s2) \<and>
                 readPage s2 f p = Some (Inr v, s3)))))"
proof (intro conjI impI)
  obtain x t where sw: "sweep (numBufs s) s = (x, t)" by (cases "sweep (numBufs s) s")
  have z: "somePinCntZero (bufDescTable s) (numBufs s) \<longleftrightarrow> (\<exists>i<numBufs s. pinCnt (bufDescTable s ! i) = 0)"
    by (rule somePinCntZero_iff)
  have restart_ok: "allocBuf s \<noteq> Some (Inl BufferExceededException, s')"
    if n: "x = Inr None" and "somePinCntZero (bufDescTable s) (numBufs s)" for s'
  proof -
    from sw n have e: "sweep (numBufs s) s = (Inr None, t)" by simp
    have rel: "clock_rel s t" using e by (rule sweep_None)
    from that(2) somePinCntZero_clock_rel [OF rel]
    have zt: "somePinCntZero (bufDescTable t) (numBufs t)" by simp
    from second_sweep_selects [OF e assms zt]
    have "allocBuf t \<noteq> Some (Inl BufferExceededException, s')"
      by (rule allocBuf_selected_not_exceeded)
    with allocBuf_restart [OF e] that(2) show ?thesis by simp
  qed
  show "(\<exists>s'. allocBuf s = Some (Inl BufferExceededException, s')) \<longleftrightarrow>
        fst (sweep (numBufs s) s) = Inr None \<and> (\<forall>i<numBufs s. pinCnt (bufDescTable s ! i) \<noteq> 0)"
  proof
    assume "\<exists>s'. allocBuf s = Some (Inl BufferExceededException, s')"
    then obtain s' where a: "allocBuf s = Some (Inl BufferExceededException, s')" ..
    with allocBuf_selected_not_exceeded [of s s'] have n: "fst (sweep (numBufs s) s) = Inr None"
      by blast
    with sw restart_ok [of s'] a have "\<not> somePinCntZero (bufDescTable s) (numBufs s)" by auto
    with n z show "fst (sweep (numBufs s) s) = Inr None \<and>
      (\<forall>i<numBufs s. pinCnt (bufDescTable s ! i) \<noteq> 0)" by simp
  next
    assume a: "fst (sweep (numBufs s) s) = Inr None \<and>
      (\<forall>i<numBufs s. pinCnt (bufDescTable s ! i) \<noteq> 0)"
    with sw have e: "sweep (numBufs s) s = (Inr None, t)" by simp
    from a z have "\<not> somePinCntZero (bufDescTable s) (numBufs s)" by simp
    with allocBuf_restart [OF e] show "\<exists>s'. allocBuf s = Some (Inl BufferExceededException, s')"
      by simp
  qed
  {
    assume a: "fst (sweep (numBufs s) s) = Inr None \<and> (\<exists>i<numBufs s. pinCnt (bufDescTable s ! i) = 0)"
    with sw have e: "sweep (numBufs s) s = (Inr None, t)" by simp
    from a z have zs: "somePinCntZero (bufDescTable s) (numBufs s)" by simp
    with allocBuf_restart [OF e] e show "allocBuf s = allocBuf (snd (sweep (numBufs s) s))" by simp
    from restart_ok [OF _ zs] sw a
    show "\<forall>s'. allocBuf s \<noteq> Some (Inl BufferExceededException, s')" by simp
  }
  {
    assume a: "index_agrees s \<and> (\<forall>i<numBufs s. 0 < pinCnt (bufDescTable s ! i)) \<and>
      hashTable s (f, p) = None \<and> files s (f, p) \<noteq> None"
    then obtain pg where pg: "files s (f, p) = Some pg" by auto
    from a have ia: "index_agrees s" and pins: "\<forall>i<numBufs s. 0 < pinCnt (bufDescTable s ! i)"
      and miss: "hashTable s (f, p) = None" by simp_all
    from readPage_all_pinned [OF ia pins miss pg] obtain s1 where
      s1: "readPage s f p = Some (Inl BufferExceededException, s1)" "index_agrees s1"
        "hashTable s1 = hashTable s" "files s1 = files s" "numBufs s1 = numBufs s"
      by blast
    have "\<exists>s2 v s3. unPinPage s1 g q b = (None, s2) \<and> readPage s2 f p = Some (Inr v, s3)"
      if h: "hashTable s1 (g, q) = Some fr" "pinCnt (bufDescTable s1 ! fr) = 1" for g q b fr
    proof -
      from h(2) have "pinCnt (bufDescTable s1 ! fr) \<noteq> 0" by simp
      from unPinPage_release [OF s1(2) h(1) this, of b] h(2) obtain s2 where
        s2: "unPinPage s1 g q b = (None, s2)" "index_agrees s2" "hashTable s2 = hashTable s1"
          "files s2 = files s1" "fr < numBufs s2" "pinCnt (bufDescTable s2 ! fr) = 0"
        by auto
      from s2(3,4) s1(3,4) miss pg have "hashTable s2 (f, p) = None" "files s2 (f, p) = Some pg"
        by simp_all
      from readPage_some_unpinned [OF s2(2,5,6) this] s2(1) show ?thesis by blast
    qed
    with s1(1)
    show "\<exists>s1. readPage s f p = Some (Inl BufferExceededException, s1) \<and>
           (\<forall>g q b fr. hashTable s1 (g, q) = Some fr \<and> pinCnt (bufDescTable s1 ! fr) = 1 \<longrightarrow>
              (\<exists>s2 v s3. unPinPage s1 g q b = (None, s2) \<and>
                 readPage s2 f p = Some (Inr v, s3)))"
      by blast
  }
qed

theorem allocBuf_exhaustion_witness:
  "wf_pool (pool_one 1 True []) \<and> index_agrees (pool_one 1 True []) \<and>
   numBufs (pool_one 1 True []) = 1 \<and> 0 < pinCnt (bufDescTable (pool_one 1 True []) ! 0) \<and>
   hashTable (pool_one 1 True []) (0, 2) = None \<and> files (pool_one 1 True []) (0, 2) \<noteq> None \<and>
   fst (sweep (numBufs (pool_one 1 True [])) (pool_one 1 True [])) = Inr None \<and>
   (\<exists>s'. allocBuf (pool_one 1 True []) = Some (Inl BufferExceededException, s')) \<and>
   readPage (pool_one 1 True []) 0 2 =
     Some (Inl BufferExceededException, pool_one 1 False [ReadPage 0 2]) \<and>
   unPinPage (pool_one 1 False [ReadPage 0 2]) 0 1 False = (None, pool_one 0 False [ReadPage 0 2]) \<and>
   (\<exists>v s3. readPage (pool_one 0 False [ReadPage 0 2]) 0 2 = Some (Inr v, s3))"
proof -
  let ?s = "pool_one 1 True []"
  have ia: "index_agrees ?s"
  proof (rule index_agreesI)
    show "wf_pool ?s" by (simp add: wf_pool_def pool_one_def)
    show "fr < numBufs ?s \<and> valid (bufDescTable ?s ! fr) \<and>
        file_ptr (bufDescTable ?s ! fr) = Some f \<and> pageNo (bufDescTable ?s ! fr) = p"
      if "hashTable ?s (f, p) = Some fr" for f p fr
      using that by (auto simp: pool_one_def split: if_splits)
    show "\<exists>f. file_ptr (bufDescTable ?s ! fr) = Some f \<and>
            hashTable ?s (f, pageNo (bufDescTable ?s ! fr)) = Some fr"
      if "fr < numBufs ?s" for fr
      using that by (simp add: pool_one_def)
    show "BufDesc_Clear (bufDescTable ?s ! fr) = bufDescTable ?s ! fr"
      if "fr < numBufs ?s" "\<not> valid (bufDescTable ?s ! fr)" for fr
      using that by (simp add: pool_one_def)
  qed
  have wf: "wf_pool ?s" using ia by (rule index_agrees_wf)
  have h: "\<forall>i<numBufs ?s. 0 < pinCnt (bufDescTable ?s ! i)" "hashTable ?s (0, 2) = None"
    "files ?s (0, 2) \<noteq> None" "\<forall>i<numBufs ?s. pinCnt (bufDescTable ?s ! i) \<noteq> 0"
    by (simp_all add: pool_one_def disk3_def)
  have sw: "fst (sweep (numBufs ?s) ?s) = Inr None"
    by (simp add: pool_one_def eval_simps)
  have rp: "readPage ?s 0 2 = Some (Inl BufferExceededException, pool_one 1 False [ReadPage 0 2])"
    by (simp add: readPage_def disk3_def allocBuf_eval wf_pool_def eval_simps pool_one_def)
  have up: "unPinPage (pool_one 1 False [ReadPage 0 2]) 0 1 False = (None, pool_one 0 False [ReadPage 0 2])"
    by (simp add: unPinPage_def pool_one_def eval_simps)
  have hit: "hashTable (pool_one 1 False [ReadPage 0 2]) (0, 1) = Some 0"
    "pinCnt (bufDescTable (pool_one 1 False [ReadPage 0 2]) ! 0) = 1"
    by (simp_all add: pool_one_def)
  note inst = allocBuf_exhaustion [OF wf, of 0 2]
  from inst sw h(4) have 1: "\<exists>s'. allocBuf ?s = Some (Inl BufferExceededException, s')" by blast
  from inst have "index_agrees ?s \<and> (\<forall>i<numBufs ?s. 0 < pinCnt (bufDescTable ?s ! i)) \<and>
      hashTable ?s (0, 2) = None \<and> files ?s (0, 2) \<noteq> None \<longrightarrow>
        (\<exists>s1. readPage ?s 0 2 = Some (Inl BufferExceededException, s1) \<and>
           (\<forall>g q b fr. hashTable s1 (g, q) = Some fr \<and> pinCnt (bufDescTable s1 ! fr) = 1 \<longrightarrow>
              (\<exists>s2 v s3. unPinPage s1 g q b = (None, s2) \<and>
                 readPage s2 0 2 = Some (Inr v, s3))))"
    by (elim conjE)
  with ia h(1,2,3) obtain s1 where s1: "readPage ?s 0 2 = Some (Inl BufferExceededException, s1)"
    and rel: "\<forall>g q b fr. hashTable s1 (g, q) = Some fr \<and> pinCnt (bufDescTable s1 ! fr) = 1 \<longrightarrow>
              (\<exists>s2 v s3. unPinPage s1 g q b = (None, s2) \<and>
                 readPage s2 0 2 = Some (Inr v, s3))"
    by blast
  from s1 rp have "s1 = pool_one 1 False [ReadPage 0 2]" by simp
  with rel hit have "\<exists>s2 v s3. unPinPage (pool_one 1 False [ReadPage 0 2]) 0 1 False = (None, s2) \<and>
      readPage s2 0 2 = Some (Inr v, s3)" by blast
  with up have 2: "\<exists>v s3. readPage (pool_one 0 False [ReadPage 0 2]) 0 2 = Some (Inr v, s3)"
    by auto
  have n: "numBufs ?s = 1" "0 < pinCnt (bufDescTable ?s ! 0)" by (simp_all add: pool_one_def)
  from wf ia n h(2,3) sw 1 rp up 2 show ?thesis by blast
qed

text \<open>
  C4. \<^verbatim>\<open>allocBuf\<close> terminates in every state of a pool: the unbounded loop returns a
  result, and it is the result of the loop cut off after two sweeps. When the index and
  the descriptors agree, the result is a frame id or \<^verbatim>\<open>BufferExceededException\<close>, and
  the exception only when every frame has a pin count other than zero. When some frame
  has pin count zero, \<^verbatim>\<open>allocBuf\<close> returns a frame, and within two sweeps: the frame
  and the final state are those of the first sweep over all frames, or the first sweep
  chooses no frame and they are those of the second sweep, run from the state the first
  one leaves.
\<close>

theorem allocBuf_terminates:
  assumes "wf_pool s"
  shows "allocBuf s = allocBuf_sweeps 2 s \<and> (\<exists>r s'. allocBuf s = Some (r, s')) \<and>
    (index_agrees s \<longrightarrow>
       (\<exists>v s'. allocBuf s = Some (Inr v, s')) \<or>
       ((\<forall>i<numBufs s. pinCnt (bufDescTable s ! i) \<noteq> 0) \<and>
        (\<exists>s'. allocBuf s = Some (Inl BufferExceededException, s')))) \<and>
    (index_agrees s \<and> (\<exists>i<numBufs s. pinCnt (bufDescTable s ! i) = 0) \<longrightarrow>
       (\<exists>v s'. allocBuf s = Some (Inr v, s') \<and> v < numBufs s \<and>
          (sweep (numBufs s) s = (Inr (Some v), s') \<or>
           fst (sweep (numBufs s) s) = Inr None \<and>
           sweep (numBufs s) (snd (sweep (numBufs s) s)) = (Inr (Some v), s'))))"
proof -
  from allocBuf_two_sweeps [OF assms] obtain r s' where
    eq: "allocBuf s = allocBuf_sweeps 2 s" and a: "allocBuf s = Some (r, s')"
    by (cases "allocBuf_sweeps 2 s") auto
  have z: "somePinCntZero (bufDescTable s) (numBufs s) \<longleftrightarrow>
      (\<exists>i<numBufs s. pinCnt (bufDescTable s ! i) = 0)"
    by (rule somePinCntZero_iff)
  have 1: "(\<exists>v s'. allocBuf s = Some (Inr v, s')) \<or>
       ((\<forall>i<numBufs s. pinCnt (bufDescTable s ! i) \<noteq> 0) \<and>
        (\<exists>s'. allocBuf s = Some (Inl BufferExceededException, s')))" if ia: "index_agrees s"
  proof (cases r)
    case (Inr v)
    with a show ?thesis by blast
  next
    case (Inl e)
    from allocBuf_agrees(3) [OF ia a Inl] have e: "e = BufferExceededException" .
    from allocBuf_post [OF assms a] Inl e obtain s1 where
      "clock_rel s s1" "\<not> somePinCntZero (bufDescTable s1) (numBufs s1)"
      by (auto simp: alloc_post_def)
    with somePinCntZero_clock_rel [of s s1] have "\<not> somePinCntZero (bufDescTable s) (numBufs s)"
      by simp
    with z a Inl e show ?thesis by auto
  qed
  have 2: "\<exists>v s'. allocBuf s = Some (Inr v, s') \<and> v < numBufs s \<and>
          (sweep (numBufs s) s = (Inr (Some v), s') \<or>
           fst (sweep (numBufs s) s) = Inr None \<and>
           sweep (numBufs s) (snd (sweep (numBufs s) s)) = (Inr (Some v), s'))"
    if ia: "index_agrees s" and u: "\<exists>i<numBufs s. pinCnt (bufDescTable s ! i) = 0"
  proof -
    from 1 [OF ia] u obtain v where v: "r = Inr v" using a by auto
    from allocBuf_agrees(2) [OF ia a v] have vN: "v < numBufs s" by simp
    obtain x t where sw: "sweep (numBufs s) s = (x, t)" by (cases "sweep (numBufs s) s")
    have "sweep (numBufs s) s = (Inr (Some v), s') \<or>
           fst (sweep (numBufs s) s) = Inr None \<and>
           sweep (numBufs s) (snd (sweep (numBufs s) s)) = (Inr (Some v), s')"
    proof (cases x)
      case (Inl e)
      with sw have "allocBuf s = Some (Inl e, t)" by (subst allocBuf.simps) simp
      with a v show ?thesis by simp
    next
      case (Inr opt)
      show ?thesis
      proof (cases opt)
        case (Some w)
        with sw Inr have "allocBuf s = Some (Inr w, t)" by (subst allocBuf.simps) simp
        with a v sw Inr Some show ?thesis by simp
      next
        case None
        with sw Inr have e: "sweep (numBufs s) s = (Inr None, t)" by simp
        have rel: "clock_rel s t" using e by (rule sweep_None)
        then have N: "numBufs t = numBufs s" by (simp add: clock_rel_def)
        from u z have "somePinCntZero (bufDescTable s) (numBufs s)" by simp
        with allocBuf_restart [OF e] have at: "allocBuf s = allocBuf t" by simp
        obtain y w where sw2: "sweep (numBufs t) t = (y, w)" by (cases "sweep (numBufs t) t")
        have "y = Inr (Some v) \<and> w = s'"
        proof (cases y)
          case (Inl e2)
          with sw2 have "allocBuf t = Some (Inl e2, w)" by (subst allocBuf.simps) simp
          with at a v show ?thesis by simp
        next
          case (Inr opt2)
          show ?thesis
          proof (cases opt2)
            case (Some w2)
            with sw2 Inr have "allocBuf t = Some (Inr w2, w)" by (subst allocBuf.simps) simp
            with at a v Inr Some show ?thesis by simp
          next
            case None2: None
            from \<open>somePinCntZero (bufDescTable s) (numBufs s)\<close> somePinCntZero_clock_rel [OF rel]
            have "somePinCntZero (bufDescTable t) (numBufs t)" by simp
            from second_sweep_selects [OF e assms this] sw2 Inr None2 show ?thesis by simp
          qed
        qed
        with sw2 e N show ?thesis by simp
      qed
    qed
    with a v vN show ?thesis by blast
  qed
  from eq a 1 2 show ?thesis by blast
qed

theorem allocBuf_terminates_witness:
  "wf_pool pool_ref \<and> index_agrees pool_ref \<and> numBufs pool_ref = 2 \<and>
   pinCnt (bufDescTable pool_ref ! 0) = 0 \<and>
   fst (sweep (numBufs pool_ref) pool_ref) = Inr None \<and>
   allocBuf_sweeps 1 pool_ref = None \<and> map_option fst (allocBuf pool_ref) = Some (Inr 0)"
proof -
  have wf: "wf_pool pool_ref" unfolding pool_ref_def by (rule wf_pool_with)
  have ia: "index_agrees pool_ref" unfolding pool_ref_def by (rule index_agrees_pool_with)
  have one: "allocBuf_sweeps 1 pool_ref = None"
    by (simp add: pool_ref_def pool_with_def eval_simps)
  have two: "map_option fst (allocBuf_sweeps 2 pool_ref) = Some (Inr 0)"
    by (simp add: pool_ref_def pool_with_def eval_simps)
  have z: "numBufs pool_ref = 2" "pinCnt (bufDescTable pool_ref ! 0) = 0"
    by (simp_all add: pool_ref_def pool_with_def)
  have sw: "fst (sweep (numBufs pool_ref) pool_ref) = Inr None"
    by (simp add: pool_ref_def pool_with_def eval_simps)
  from z have "0 < numBufs pool_ref \<and> pinCnt (bufDescTable pool_ref ! 0) = 0" by simp
  then have u: "\<exists>i<numBufs pool_ref. pinCnt (bufDescTable pool_ref ! i) = 0" by blast
  from allocBuf_terminates [OF wf] ia u obtain v s' where
    "allocBuf pool_ref = Some (Inr v, s')" by blast
  moreover from allocBuf_terminates [OF wf] two
  have "map_option fst (allocBuf pool_ref) = Some (Inr 0)" by simp
  ultimately show ?thesis using wf ia one z sw by simp
qed





text \<open>
  C7. \<^verbatim>\<open>flushFile\<close> scans the frames in order. A frame of the file blocks the flush
  when it is pinned or not valid; \<open>k0\<close> is the first frame that does, or \<open>numBufs\<close> when
  there is none. Every valid frame of the file is registered in the hash table (as in any
  pool whose index agrees with its descriptors). Then the call returns normally if no
  frame blocks, and otherwise throws for frame \<open>k0\<close>: \<^verbatim>\<open>PagePinnedException\<close> with the
  file, the page and the frame if it is pinned, \<^verbatim>\<open>BadBufferException\<close> if not. The
  frames of the file before \<open>k0\<close> have been flushed and stay so: the dirty ones written
  to the file, in frame order, their entries removed from the hash table and their
  descriptors cleared. Every other descriptor, frame \<open>k0\<close> and the frames after it and
  the frames of other files, is as before, and so is every other entry of the hash table.
\<close>

theorem flushFile_effect:
  assumes "length (bufDescTable s) = numBufs s"
    and "\<forall>k<numBufs s. owned s f k \<and> valid (bufDescTable s ! k) \<longrightarrow>
           hashTable s (f, pageNo (bufDescTable s ! k)) = Some k"
    and "k0 \<le> numBufs s" and "\<forall>k<k0. \<not> blocks_flush s f k"
    and "k0 < numBufs s \<longrightarrow> blocks_flush s f k0"
    and "flushFile s f = (r, s')"
  shows "r = (if k0 = numBufs s then None
              else if 0 < pinCnt (bufDescTable s ! k0)
                then Some (PagePinnedException f (pageNo (bufDescTable s ! k0)) k0)
                else Some (BadBufferException k0 (dirty (bufDescTable s ! k0))
                       (valid (bufDescTable s ! k0)) (refbit (bufDescTable s ! k0)))) \<and>
         (\<forall>k<numBufs s. bufDescTable s' ! k =
            (if k < k0 \<and> owned s f k then BufDesc_Clear (bufDescTable s ! k)
             else bufDescTable s ! k)) \<and>
         (\<forall>key. hashTable s' key =
            (if \<exists>k<k0. owned s f k \<and> key = (f, pageNo (bufDescTable s ! k))
             then None else hashTable s key)) \<and>
         iolog s' = iolog s @
            map (\<lambda>k. WritePage f (bufPool s ! k))
              (filter (\<lambda>k. owned s f k \<and> dirty (bufDescTable s ! k)) [0..<k0]) \<and>
         bufPool s' = bufPool s \<and> numBufs s' = numBufs s \<and>
         length (bufDescTable s') = numBufs s"
proof -
  from assms(6) have run: "flushFrames f [0..<numBufs s] s = (r, s')" by (simp add: flushFile_def)
  from flushFrames_upt [OF assms(1) _ _ assms(3) _ assms(5) run] assms(2,4)
  show ?thesis by simp
qed

theorem flushFile_effect_witness:
  "length (bufDescTable pool_ref) = numBufs pool_ref \<and> numBufs pool_ref = 2 \<and>
   hashTable pool_ref (0, pageNo (bufDescTable pool_ref ! 0)) = Some 0 \<and>
   hashTable pool_ref (0, pageNo (bufDescTable pool_ref ! 1)) = Some 1 \<and>
   \<not> blocks_flush pool_ref 0 0 \<and> blocks_flush pool_ref 0 1 \<and>
   fst (flushFile pool_ref 0) = Some (PagePinnedException 0 2 1) \<and>
   \<not> valid (bufDescTable (snd (flushFile pool_ref 0)) ! 0) \<and>
   \<not> dirty (bufDescTable (snd (flushFile pool_ref 0)) ! 0) \<and>
   bufDescTable (snd (flushFile pool_ref 0)) ! 1 = bufDescTable pool_ref ! 1 \<and>
   hashTable (snd (flushFile pool_ref 0)) (0, 1) = None \<and>
   hashTable (snd (flushFile pool_ref 0)) (0, 2) = Some 1 \<and>
   iolog (snd (flushFile pool_ref 0)) = [WritePage 0 (page_of 1 [11])] \<and>
   length (bufDescTable pool_bad) = numBufs pool_bad \<and> numBufs pool_bad = 2 \<and>
   hashTable pool_bad (0, pageNo (bufDescTable pool_bad ! 0)) = Some 0 \<and>
   \<not> valid (bufDescTable pool_bad ! 1) \<and>
   \<not> blocks_flush pool_bad 0 0 \<and> blocks_flush pool_bad 0 1 \<and>
   fst (flushFile pool_bad 0) = Some (BadBufferException 1 False False True)"
proof -
  have two: "k < 2 \<Longrightarrow> k = 0 \<or> k = 1" for k :: nat by auto
  have a: "length (bufDescTable pool_ref) = numBufs pool_ref" "1 \<le> numBufs pool_ref"
    "\<not> blocks_flush pool_ref 0 0" "blocks_flush pool_ref 0 1" "1 < numBufs pool_ref"
    "owned pool_ref 0 0" "numBufs pool_ref = 2"
    by (simp_all add: pool_ref_def pool_with_def blocks_flush_def owned_def)
  have h: "\<forall>k<numBufs pool_ref. owned pool_ref 0 k \<and> valid (bufDescTable pool_ref ! k) \<longrightarrow>
      hashTable pool_ref (0, pageNo (bufDescTable pool_ref ! k)) = Some k"
    unfolding a(7) by (auto dest!: two simp: pool_ref_def pool_with_def)
  from a(3) have nb: "\<forall>k<1. \<not> blocks_flush pool_ref 0 k" by simp
  from a(4) have b: "1 < numBufs pool_ref \<longrightarrow> blocks_flush pool_ref 0 1" by simp
  from flushFile_effect [OF a(1) h a(2) nb b surjective_pairing] a(5,6)
  have 1: "fst (flushFile pool_ref 0) = Some (PagePinnedException 0 2 1)"
    "\<not> valid (bufDescTable (snd (flushFile pool_ref 0)) ! 0)"
    "\<not> dirty (bufDescTable (snd (flushFile pool_ref 0)) ! 0)"
    "bufDescTable (snd (flushFile pool_ref 0)) ! 1 = bufDescTable pool_ref ! 1"
    "hashTable (snd (flushFile pool_ref 0)) (0, 1) = None"
    "hashTable (snd (flushFile pool_ref 0)) (0, 2) = Some 1"
    "iolog (snd (flushFile pool_ref 0)) = [WritePage 0 (page_of 1 [11])]"
    by (simp_all add: pool_ref_def pool_with_def BufDesc_Clear_def owned_def)
  have c: "length (bufDescTable pool_bad) = numBufs pool_bad" "1 \<le> numBufs pool_bad"
    "\<not> blocks_flush pool_bad 0 0" "blocks_flush pool_bad 0 1" "1 < numBufs pool_bad"
    "numBufs pool_bad = 2"
    by (simp_all add: pool_bad_def pool_ref_def pool_with_def blocks_flush_def owned_def)
  have h': "\<forall>k<numBufs pool_bad. owned pool_bad 0 k \<and> valid (bufDescTable pool_bad ! k) \<longrightarrow>
      hashTable pool_bad (0, pageNo (bufDescTable pool_bad ! k)) = Some k"
    unfolding c(6) by (auto dest!: two simp: pool_bad_def pool_ref_def pool_with_def)
  from c(3) have nb': "\<forall>k<1. \<not> blocks_flush pool_bad 0 k" by simp
  from c(4) have b': "1 < numBufs pool_bad \<longrightarrow> blocks_flush pool_bad 0 1" by simp
  from flushFile_effect [OF c(1) h' c(2) nb' b' surjective_pairing] c(5)
  have 2: "fst (flushFile pool_bad 0) = Some (BadBufferException 1 False False True)"
    by (simp add: pool_bad_def pool_ref_def pool_with_def)
  have k: "hashTable pool_ref (0, pageNo (bufDescTable pool_ref ! 0)) = Some 0"
    "hashTable pool_ref (0, pageNo (bufDescTable pool_ref ! 1)) = Some 1"
    "hashTable pool_bad (0, pageNo (bufDescTable pool_bad ! 0)) = Some 0"
    "\<not> valid (bufDescTable pool_bad ! 1)"
    by (simp_all add: pool_bad_def pool_ref_def pool_with_def)
  from a k 1 c 2 show ?thesis by simp
qed

text \<open>
  C8. \<^verbatim>\<open>disposePage\<close>. If the page is in the hash table, the descriptor of its frame
  is cleared and the entry removed, whatever the pin count; then, in every case,
  \<^verbatim>\<open>deletePage\<close> is called on the file: the call is the last entry of the log of file
  operations, and the outcome of \<^verbatim>\<open>disposePage\<close> is the outcome of that call.
\<close>

theorem disposePage_effect:
  "disposePage s f p =
     file_deletePage
       (case hashTable s (f, p) of
          None \<Rightarrow> s
        | Some fr \<Rightarrow>
            s\<lparr>bufDescTable := (bufDescTable s)[fr := BufDesc_Clear (bufDescTable s ! fr)],
               hashTable := (hashTable s)((f, p) := None)\<rparr>) f p \<and>
   iolog (snd (disposePage s f p)) = iolog s @ [DeletePage f p] \<and>
   hashTable (snd (disposePage s f p)) (f, p) = None \<and>
   files (snd (disposePage s f p)) (f, p) = None \<and>
   (\<forall>fr. hashTable s (f, p) = Some fr \<and> fr < length (bufDescTable s) \<longrightarrow>
      bufDescTable (snd (disposePage s f p)) ! fr = BufDesc_Clear (bufDescTable s ! fr) \<and>
      \<not> valid (bufDescTable (snd (disposePage s f p)) ! fr) \<and>
      pinCnt (bufDescTable (snd (disposePage s f p)) ! fr) = 0)"
  by (cases "hashTable s (f, p)"; cases "files s (f, p)")
    (simp_all add: disposePage_def ht_lookup_def ht_remove_def file_deletePage_def Let_def
      BufDesc_Clear_def)

theorem disposePage_effect_witness:
  "hashTable pool_ref (0, 2) = Some 1 \<and> 1 < length (bufDescTable pool_ref) \<and>
   0 < pinCnt (bufDescTable pool_ref ! 1) \<and>
   fst (disposePage pool_ref 0 2) = None \<and>
   \<not> valid (bufDescTable (snd (disposePage pool_ref 0 2)) ! 1) \<and>
   hashTable (snd (disposePage pool_ref 0 2)) (0, 2) = None \<and>
   iolog (snd (disposePage pool_ref 0 2)) = [DeletePage 0 2] \<and>
   fst (disposePage pool_ref 0 7) = Some (InvalidPageException 7 0) \<and>
   iolog (snd (disposePage pool_ref 0 7)) = [DeletePage 0 7]"
proof -
  have h: "hashTable pool_ref (0, 2) = Some 1" "1 < length (bufDescTable pool_ref)"
    "0 < pinCnt (bufDescTable pool_ref ! 1)" "iolog pool_ref = []"
    "hashTable pool_ref (0, 7) = None" "files pool_ref (0, 2) \<noteq> None" "files pool_ref (0, 7) = None"
    by (simp_all add: pool_ref_def pool_with_def disk3_def)
  from disposePage_effect [of pool_ref 0 2] h
  have 1: "\<not> valid (bufDescTable (snd (disposePage pool_ref 0 2)) ! 1)"
    "hashTable (snd (disposePage pool_ref 0 2)) (0, 2) = None"
    "iolog (snd (disposePage pool_ref 0 2)) = [DeletePage 0 2]"
    "fst (disposePage pool_ref 0 2) = None"
    by (auto simp: file_deletePage_def)
  from disposePage_effect [of pool_ref 0 7] h
  have 2: "fst (disposePage pool_ref 0 7) = Some (InvalidPageException 7 0)"
    "iolog (snd (disposePage pool_ref 0 7)) = [DeletePage 0 7]"
    by (simp_all add: file_deletePage_def)
  from h 1 2 show ?thesis by simp
qed

text \<open>
  C9. In every state a pool can reach from its construction by \<^verbatim>\<open>readPage\<close>,
  \<^verbatim>\<open>unPinPage\<close>, \<^verbatim>\<open>allocPage\<close>, \<^verbatim>\<open>disposePage\<close> and \<^verbatim>\<open>flushFile\<close>, returning or
  throwing: no two valid frames hold the same (file, page number); a frame is valid
  exactly when its (file, page number) is in the hash table; and the hash table maps
  (file, page number) to a frame exactly when that frame is valid and holds this page.
  The file gives a new page a number that is not in use in the file, and the pool has
  fewer than \<open>2 ^ 31\<close> frames.
\<close>

theorem index_uniqueness:
  assumes "reachable s"
  shows
    "(\<forall>i<numBufs s. \<forall>j<numBufs s.
        valid (bufDescTable s ! i) \<and> valid (bufDescTable s ! j) \<and>
        file_ptr (bufDescTable s ! i) = file_ptr (bufDescTable s ! j) \<and>
        pageNo (bufDescTable s ! i) = pageNo (bufDescTable s ! j) \<longrightarrow> i = j) \<and>
     (\<forall>i<numBufs s.
        valid (bufDescTable s ! i) \<longleftrightarrow>
        (\<exists>f. file_ptr (bufDescTable s ! i) = Some f \<and>
             hashTable s (f, pageNo (bufDescTable s ! i)) \<noteq> None)) \<and>
     (\<forall>f p fr.
        hashTable s (f, p) = Some fr \<longleftrightarrow>
        fr < numBufs s \<and> valid (bufDescTable s ! fr) \<and>
        file_ptr (bufDescTable s ! fr) = Some f \<and> pageNo (bufDescTable s ! fr) = p)"
proof -
  from reachable_inv [OF assms] have ia: "index_agrees s" ..
  have 1: "i = j"
    if "i < numBufs s" "j < numBufs s" "valid (bufDescTable s ! i)" "valid (bufDescTable s ! j)"
      "file_ptr (bufDescTable s ! i) = file_ptr (bufDescTable s ! j)"
      "pageNo (bufDescTable s ! i) = pageNo (bufDescTable s ! j)" for i j
    using index_agrees_valid [OF ia that(1,3)] index_agrees_valid [OF ia that(2,4)] that(5,6)
    by auto
  have 2: "valid (bufDescTable s ! i) \<longleftrightarrow>
        (\<exists>f. file_ptr (bufDescTable s ! i) = Some f \<and>
             hashTable s (f, pageNo (bufDescTable s ! i)) \<noteq> None)" if "i < numBufs s" for i
  proof
    assume "valid (bufDescTable s ! i)"
    from index_agrees_valid [OF ia that this]
    show "\<exists>f. file_ptr (bufDescTable s ! i) = Some f \<and>
             hashTable s (f, pageNo (bufDescTable s ! i)) \<noteq> None" by auto
  next
    assume "\<exists>f. file_ptr (bufDescTable s ! i) = Some f \<and>
             hashTable s (f, pageNo (bufDescTable s ! i)) \<noteq> None"
    then obtain f where f: "file_ptr (bufDescTable s ! i) = Some f" by blast
    show "valid (bufDescTable s ! i)"
    proof (rule ccontr)
      assume "\<not> valid (bufDescTable s ! i)"
      from cleared_fields(1) [OF index_agrees_invalid [OF ia that this]] f show False by simp
    qed
  qed
  have 3: "hashTable s (f, p) = Some fr \<longleftrightarrow>
        fr < numBufs s \<and> valid (bufDescTable s ! fr) \<and>
        file_ptr (bufDescTable s ! fr) = Some f \<and> pageNo (bufDescTable s ! fr) = p" for f p fr
  proof
    assume "hashTable s (f, p) = Some fr"
    from index_agrees_hit [OF ia this]
    show "fr < numBufs s \<and> valid (bufDescTable s ! fr) \<and>
        file_ptr (bufDescTable s ! fr) = Some f \<and> pageNo (bufDescTable s ! fr) = p" by simp
  next
    assume a: "fr < numBufs s \<and> valid (bufDescTable s ! fr) \<and>
        file_ptr (bufDescTable s ! fr) = Some f \<and> pageNo (bufDescTable s ! fr) = p"
    with index_agrees_valid [OF ia, of fr] show "hashTable s (f, p) = Some fr" by auto
  qed
  from 1 2 3 show ?thesis by blast
qed

theorem index_uniqueness_witness:
  "\<exists>r s'. readPage (BufMgr_init 2 disk3) 0 1 = Some (r, s') \<and> reachable s' \<and> r = Inr 0 \<and>
     numBufs s' = 2 \<and> valid (bufDescTable s' ! 0) \<and> \<not> valid (bufDescTable s' ! 1) \<and>
     file_ptr (bufDescTable s' ! 0) = Some 0 \<and> pageNo (bufDescTable s' ! 0) = 1 \<and>
     hashTable s' (0, 1) = Some 0"
proof -
  let ?s0 = "BufMgr_init 2 disk3"
  have r0: "reachable ?s0" by (rule reach_init) simp
  obtain r s' where run: "readPage ?s0 0 1 = Some (r, s')"
    by (cases "readPage ?s0 0 1")
      (auto simp: readPage_def BufMgr_init_def upt_rec disk3_def allocBuf_eval wf_pool_def eval_simps)
  have r1: "reachable s'" using r0 run by (rule reach_readPage)
  from run have e: "r = Inr 0" "numBufs s' = 2" "valid (bufDescTable s' ! 0)"
    "\<not> valid (bufDescTable s' ! 1)" "file_ptr (bufDescTable s' ! 0) = Some 0"
    "pageNo (bufDescTable s' ! 0) = 1"
    by (auto simp: readPage_def BufMgr_init_def upt_rec disk3_def allocBuf_eval wf_pool_def eval_simps)
  from index_uniqueness [OF r1] e have "hashTable s' (0, 1) = Some 0" by simp
  with run r1 e show ?thesis by blast
qed

text \<open>
  C10. The eviction branch, in any state whatever: \<open>h\<close> is the frame the sweep reaches
  and its descriptor \<open>d\<close> is valid, unreferenced and not pinned. If the file pointer of
  \<open>d\<close> is not null and the hash table has no entry for the page, \<^verbatim>\<open>remove\<close> throws,
  the exception is swallowed and \<^verbatim>\<open>Clear\<close> is skipped: the loop still returns \<open>h\<close>,
  with the hash table and every descriptor as they were, so that frame \<open>h\<close> is still
  valid, with its old file, page number and dirty bit (a dirty page has been written
  all the same). If the file pointer is null and \<open>d\<close> is clean, \<open>h\<close> is returned with
  nothing changed but the clock hand. Whenever the loop leaves the hash table or a
  descriptor changed, the file pointer was not null and the page had an entry.
\<close>

theorem eviction_guarded:
  assumes "h = clockHand (advanceClock s)" and "d = bufDescTable s ! h"
    and "valid d" and "\<not> refbit d" and "\<not> 0 < pinCnt d"
  shows
    "(\<forall>f. file_ptr d = Some f \<and> hashTable s (f, pageNo d) = None \<longrightarrow>
        (\<exists>s'. sweep (Suc n) s = (Inr (Some h), s') \<and>
           (numBufs s = Suc n \<longrightarrow> allocBuf s = Some (Inr h, s')) \<and>
           hashTable s' = hashTable s \<and> bufDescTable s' = bufDescTable s \<and>
           valid (bufDescTable s' ! h) \<and> file_ptr (bufDescTable s' ! h) = Some f \<and>
           pageNo (bufDescTable s' ! h) = pageNo d \<and> dirty (bufDescTable s' ! h) = dirty d \<and>
           iolog s' = iolog s @ (if dirty d then [WritePage f (bufPool s ! h)] else []))) \<and>
     (file_ptr d = None \<and> \<not> dirty d \<longrightarrow> sweep (Suc n) s = (Inr (Some h), s\<lparr>clockHand := h\<rparr>)) \<and>
     (\<forall>r s'. sweep (Suc n) s = (r, s') \<and>
        (hashTable s' \<noteq> hashTable s \<or> bufDescTable s' \<noteq> bufDescTable s) \<longrightarrow>
        (\<exists>f. file_ptr d = Some f \<and> hashTable s (f, pageNo d) \<noteq> None))"
proof -
  let ?s1 = "advanceClock s"
  have ac: "?s1 = s\<lparr>clockHand := h\<rparr>" using advanceClock_eq [of s] assms(1) by simp
  have sw: "sweep (Suc n) s =
    (case evictFrame ?s1 h of Inl e \<Rightarrow> (Inl e, ?s1) | Inr s2 \<Rightarrow> (Inr (Some h), s2))"
    unfolding assms(1) using assms by (intro sweep_victim) simp_all
  have 1: "\<exists>s'. sweep (Suc n) s = (Inr (Some h), s') \<and>
           (numBufs s = Suc n \<longrightarrow> allocBuf s = Some (Inr h, s')) \<and>
           hashTable s' = hashTable s \<and> bufDescTable s' = bufDescTable s \<and>
           valid (bufDescTable s' ! h) \<and> file_ptr (bufDescTable s' ! h) = Some f \<and>
           pageNo (bufDescTable s' ! h) = pageNo d \<and> dirty (bufDescTable s' ! h) = dirty d \<and>
           iolog s' = iolog s @ (if dirty d then [WritePage f (bufPool s ! h)] else [])"
    if f: "file_ptr d = Some f" "hashTable s (f, pageNo d) = None" for f
  proof -
    let ?s' = "if dirty d then file_writePage ?s1 f (bufPool ?s1 ! h) else ?s1"
    from f assms(2) have "evictFrame ?s1 h = Inr ?s'"
      by (intro evictFrame_not_found [THEN trans]) (simp_all add: advanceClock_fields)
    with sw have e: "sweep (Suc n) s = (Inr (Some h), ?s')" by (simp del: sweep.simps)
    then have "numBufs s = Suc n \<longrightarrow> allocBuf s = Some (Inr h, ?s')"
      by (simp add: allocBuf_first_sweep del: sweep.simps)
    moreover have "hashTable ?s' = hashTable s" "bufDescTable ?s' = bufDescTable s"
      "iolog ?s' = iolog s @ (if dirty d then [WritePage f (bufPool s ! h)] else [])"
      by (simp_all add: file_writePage_def advanceClock_fields)
    ultimately show ?thesis using e f assms(2,3) by (auto simp del: sweep.simps)
  qed
  have 2: "sweep (Suc n) s = (Inr (Some h), s\<lparr>clockHand := h\<rparr>)" if "file_ptr d = None" "\<not> dirty d"
  proof -
    from that assms(2) have "evictFrame ?s1 h = Inr ?s1"
      by (simp add: evictFrame_def removeVictim_def Let_def advanceClock_fields)
    with sw ac show ?thesis by (simp del: sweep.simps)
  qed
  have 3: "\<exists>f. file_ptr d = Some f \<and> hashTable s (f, pageNo d) \<noteq> None"
    if "sweep (Suc n) s = (r, s')" "hashTable s' \<noteq> hashTable s \<or> bufDescTable s' \<noteq> bufDescTable s"
    for r s'
  proof (cases "evictFrame ?s1 h")
    case (Inl e)
    with sw that(1) have "s' = ?s1" by (simp del: sweep.simps)
    with that(2) show ?thesis by (simp add: advanceClock_fields)
  next
    case (Inr s2)
    with sw that(1) have "s' = s2" by (simp del: sweep.simps)
    with Inr that(2) have "evictFrame ?s1 h = Inr s'"
      "hashTable s' \<noteq> hashTable ?s1 \<or> bufDescTable s' \<noteq> bufDescTable ?s1"
      by (simp_all add: advanceClock_fields)
    from evictFrame_changes [OF this] assms(2) show ?thesis by (simp add: advanceClock_fields)
  qed
  from 1 2 3 show ?thesis by blast
qed

theorem eviction_guarded_witness:
  "clockHand (advanceClock pool_stale) = 0 \<and> valid (bufDescTable pool_stale ! 0) \<and>
   \<not> refbit (bufDescTable pool_stale ! 0) \<and> \<not> 0 < pinCnt (bufDescTable pool_stale ! 0) \<and>
   file_ptr (bufDescTable pool_stale ! 0) = Some 0 \<and> hashTable pool_stale (0, 1) = None \<and>
   (\<exists>s'. allocBuf pool_stale = Some (Inr 0, s') \<and> valid (bufDescTable s' ! 0) \<and>
      dirty (bufDescTable s' ! 0) \<and> pageNo (bufDescTable s' ! 0) = 1 \<and>
      iolog s' = [WritePage 0 (page_of 1 [11])])"
proof -
  have h: "0 = clockHand (advanceClock pool_stale)"
    by (simp add: pool_stale_def pool_unref_def pool_with_def advanceClock_def)
  have d: "valid (bufDescTable pool_stale ! 0)" "\<not> refbit (bufDescTable pool_stale ! 0)"
    "\<not> 0 < pinCnt (bufDescTable pool_stale ! 0)"
    by (simp_all add: pool_stale_def pool_unref_def pool_with_def)
  have e: "file_ptr (bufDescTable pool_stale ! 0) = Some 0" "hashTable pool_stale (0, 1) = None"
    "pageNo (bufDescTable pool_stale ! 0) = 1" "dirty (bufDescTable pool_stale ! 0)"
    "numBufs pool_stale = Suc 1" "bufPool pool_stale ! 0 = page_of 1 [11]" "iolog pool_stale = []"
    by (simp_all add: pool_stale_def pool_unref_def pool_with_def)
  from eviction_guarded [OF h refl d, of 1] e
  have "\<exists>s'. allocBuf pool_stale = Some (Inr 0, s') \<and> valid (bufDescTable s' ! 0) \<and>
      dirty (bufDescTable s' ! 0) \<and> pageNo (bufDescTable s' ! 0) = 1 \<and>
      iolog s' = [WritePage 0 (page_of 1 [11])]"
    by (auto simp del: sweep.simps)
  with h d e show ?thesis by simp
qed


end
